theory Spec2Isabelle
  imports Complex_Main
begin

section \<open>Ingram core: the scan orchestrator of \<^verbatim>\<open>Ingram/core.py\<close>\<close>

text \<open>
  The theory embeds the four methods of class \<^verbatim>\<open>Core\<close>: \<^verbatim>\<open>finish\<close>, \<^verbatim>\<open>report\<close>,
  \<^verbatim>\<open>_scan\<close> and \<^verbatim>\<open>run\<close>. The collaborators the class imports (\<^verbatim>\<open>port_scan\<close>,
  \<^verbatim>\<open>fingerprint\<close>, the PoC registry, \<^verbatim>\<open>Data\<close>, \<^verbatim>\<open>SnapshotPipeline\<close>, the logger) are
  not part of the file. The ones that return a value are parameters of the model, each a
  function of the arguments of the call that either raises or returns. The ones that are
  called for their effect (the methods of \<^verbatim>\<open>Data\<close>, of \<^verbatim>\<open>SnapshotPipeline\<close> and of the
  logger) are recorded and taken to return: the state of the model is the list of calls
  made so far, in order. A Python exception is the left summand of a sum type.
\<close>

subsection \<open>Exceptions, ports, calls\<close>

text \<open>
  Python's exception classes, as far as the two handlers of \<^verbatim>\<open>run\<close> tell them apart:
  \<^verbatim>\<open>KeyboardInterrupt\<close>, the subclasses of \<^verbatim>\<open>Exception\<close> (with a message), and the
  other subclasses of \<^verbatim>\<open>BaseException\<close> (\<^verbatim>\<open>SystemExit\<close>, \<^verbatim>\<open>GeneratorExit\<close>).
\<close>

datatype exn = KeyboardInterrupt | Exception string | BaseException string

text \<open>
  A port is the string after the colon of a target \<^verbatim>\<open>ip:port\<close>, or an element of
  \<^verbatim>\<open>config.ports\<close>, an integer.
\<close>

datatype port = PortStr string | PortNum int

fun str_nat :: "nat \<Rightarrow> string" where
  "str_nat n =
     (if n < 10 then [char_of (48 + n)]
      else str_nat (n div 10) @ [char_of (48 + n mod 10)])"

declare str_nat.simps [simp del]

definition str_int :: "int \<Rightarrow> string" where
  "str_int i = (if i < 0 then CHR ''-'' # str_nat (nat (- i)) else str_nat (nat i))"

fun str_port :: "port \<Rightarrow> string" where
  "str_port (PortStr s) = s"
| "str_port (PortNum i) = str_int i"

text \<open>
  The calls \<^verbatim>\<open>_scan\<close> and \<^verbatim>\<open>run\<close> make for their effect: on the logger, on
  \<^verbatim>\<open>self.data\<close> and on \<^verbatim>\<open>self.snapshot_pipeline\<close>. \<^typ>\<open>'x\<close> is the type of a PoC's
  \<^verbatim>\<open>exploit\<close> attribute.
\<close>

datatype 'x call =
    LogInfo string
  | LogError exn
  | AddFound
  | AddVulnerable "string list"
  | SnapshotPut 'x "string list"
  | AddNotVulnerable "string list"
  | AddDone
  | RecordRunningState

record config =
  ports :: "port list"
  timeout :: rat
  th_num :: int
  out_dir :: string
  vulnerable :: string
  disable_snapshot :: bool

text \<open>
  A PoC: \<^verbatim>\<open>verify(ip, port)\<close> raises, or returns \<^verbatim>\<open>None\<close> or a sequence of fields;
  \<^verbatim>\<open>exploit\<close> is only passed on, never called here.
\<close>

record 'x poc =
  verify :: "string \<Rightarrow> port \<Rightarrow> exn + string list option"
  exploit :: 'x

text \<open>
  The collaborators of \<^verbatim>\<open>_scan\<close>. \<^verbatim>\<open>poc_dict\<close> is the lookup \<^verbatim>\<open>self.poc_dict[product]\<close>:
  the registry is built outside this file, so the lookup may raise (a plain dict) or
  return a list for every key (a dict with a default).
\<close>

record 'x collab =
  port_scan :: "string \<Rightarrow> port \<Rightarrow> rat \<Rightarrow> exn + bool"
  fingerprint :: "string \<Rightarrow> port \<Rightarrow> config \<Rightarrow> exn + string option"
  poc_dict :: "string \<Rightarrow> exn + 'x poc list"

subsection \<open>Strings\<close>

text \<open>\<^verbatim>\<open>s.split(c)\<close> for a one-character separator: one more piece than separators, so
  never the empty list, and index 0 always exists.\<close>

fun str_split :: "char \<Rightarrow> string \<Rightarrow> string list" where
  "str_split c [] = [[]]"
| "str_split c (x # xs) =
     (if x = c then [] # str_split c xs
      else (case str_split c xs of
              [] \<Rightarrow> [[x]]
            | y # ys \<Rightarrow> (x # y) # ys))"

subsection \<open>The scan task\<close>

text \<open>
  Python's truth value decides lines 75 and 80: \<^verbatim>\<open>None\<close>, the empty string and the empty
  sequence are false, so a fingerprint or a \<^verbatim>\<open>verify\<close> result counts only when it is
  \<open>Some\<close> of a non-empty list.
\<close>

text \<open>
  Lines 79 to 88, the loop over the PoCs of a product. The flag \<^verbatim>\<open>verified\<close> and the
  list of calls are threaded through; an exception of \<^verbatim>\<open>verify\<close> leaves the loop with the
  calls made so far.
\<close>

fun poc_loop ::
  "config \<Rightarrow> string \<Rightarrow> port \<Rightarrow> 'x poc list \<Rightarrow> bool \<Rightarrow> 'x call list
     \<Rightarrow> (exn + bool) \<times> 'x call list" where
  "poc_loop cfg ip p [] verified tr = (Inr verified, tr)"
| "poc_loop cfg ip p (c # cs) verified tr =
     (case verify c ip p of
        Inl e \<Rightarrow> (Inl e, tr)
      | Inr None \<Rightarrow> poc_loop cfg ip p cs verified tr
      | Inr (Some results) \<Rightarrow>
          if results \<noteq> [] then
            poc_loop cfg ip p cs True
              (tr @ [AddFound, AddVulnerable (take 6 results)]
                  @ (if \<not> disable_snapshot cfg then [SnapshotPut (exploit c) results] else []))
          else poc_loop cfg ip p cs verified tr)"

text \<open>Lines 72 to 90, the body of the loop over the ports.\<close>

definition scan_port ::
  "config \<Rightarrow> 'x collab \<Rightarrow> string \<Rightarrow> port \<Rightarrow> 'x call list \<Rightarrow> (exn + unit) \<times> 'x call list" where
  "scan_port cfg env ip p tr =
     (case port_scan env ip p (timeout cfg) of
        Inl e \<Rightarrow> (Inl e, tr)
      | Inr False \<Rightarrow> (Inr (), tr)
      | Inr True \<Rightarrow>
          (let tr1 = tr @ [LogInfo (ip @ '' port '' @ str_port p @ '' is open'')] in
           case fingerprint env ip p cfg of
             Inl e \<Rightarrow> (Inl e, tr1)
           | Inr None \<Rightarrow> (Inr (), tr1)
           | Inr (Some product) \<Rightarrow>
               if product \<noteq> [] then
                 (let tr2 = tr1 @ [LogInfo (ip @ '':'' @ str_port p @ '' is '' @ product)] in
                  case poc_dict env product of
                    Inl e \<Rightarrow> (Inl e, tr2)
                  | Inr pocs \<Rightarrow>
                      (case poc_loop cfg ip p pocs False tr2 of
                         (Inl e, tr3) \<Rightarrow> (Inl e, tr3)
                       | (Inr verified, tr3) \<Rightarrow>
                           if \<not> verified
                           then (Inr (), tr3 @ [AddNotVulnerable [ip, str_port p, product]])
                           else (Inr (), tr3)))
               else (Inr (), tr1)))"

text \<open>Line 71, the loop over the ports: the first exception ends it.\<close>

fun port_loop ::
  "config \<Rightarrow> 'x collab \<Rightarrow> string \<Rightarrow> port list \<Rightarrow> 'x call list \<Rightarrow> (exn + unit) \<times> 'x call list" where
  "port_loop cfg env ip [] tr = (Inr (), tr)"
| "port_loop cfg env ip (p # ps) tr =
     (case scan_port cfg env ip p tr of
        (Inl e, tr') \<Rightarrow> (Inl e, tr')
      | (Inr u, tr') \<Rightarrow> port_loop cfg env ip ps tr')"

text \<open>Lines 64 to 66: the address and the ports of a target.\<close>

definition target_ip :: "string \<Rightarrow> string" where
  "target_ip target = (case str_split CHR '':'' target of [] \<Rightarrow> [] | ip # rest \<Rightarrow> ip)"

definition target_ports :: "config \<Rightarrow> string \<Rightarrow> port list" where
  "target_ports cfg target =
     (let items = str_split CHR '':'' target in
      if length items > 1 then [PortStr (items ! 1)] else ports cfg)"

text \<open>\<^verbatim>\<open>Core._scan\<close>, lines 59 to 92.\<close>

definition scan ::
  "config \<Rightarrow> 'x collab \<Rightarrow> string \<Rightarrow> 'x call list \<Rightarrow> (exn + unit) \<times> 'x call list" where
  "scan cfg env target tr =
     (case port_loop cfg env (target_ip target) (target_ports cfg target) tr of
        (Inl e, tr') \<Rightarrow> (Inl e, tr')
      | (Inr u, tr') \<Rightarrow> (Inr (), tr' @ [AddDone, RecordRunningState]))"

text \<open>
  What the theorems about the scan task are stated with. \<open>succeeds\<close>: the \<^verbatim>\<open>verify\<close> call
  returned a result that Python takes as true. \<open>poc_calls\<close>: the calls lines 83 to 88 make
  for one PoC. \<open>port_returns\<close>: no collaborator call made while processing the port
  raises.
\<close>

definition succeeds :: "string \<Rightarrow> port \<Rightarrow> 'x poc \<Rightarrow> bool" where
  "succeeds ip p c =
     (case verify c ip p of Inr (Some results) \<Rightarrow> results \<noteq> [] | _ \<Rightarrow> False)"

definition poc_calls :: "config \<Rightarrow> string \<Rightarrow> port \<Rightarrow> 'x poc \<Rightarrow> 'x call list" where
  "poc_calls cfg ip p c =
     (case verify c ip p of
        Inr (Some results) \<Rightarrow>
          if results \<noteq> [] then
            [AddFound, AddVulnerable (take 6 results)]
              @ (if \<not> disable_snapshot cfg then [SnapshotPut (exploit c) results] else [])
          else []
      | _ \<Rightarrow> [])"

definition port_returns :: "config \<Rightarrow> 'x collab \<Rightarrow> string \<Rightarrow> port \<Rightarrow> bool" where
  "port_returns cfg env ip p =
     (case port_scan env ip p (timeout cfg) of
        Inl e \<Rightarrow> False
      | Inr False \<Rightarrow> True
      | Inr True \<Rightarrow>
          (case fingerprint env ip p cfg of
             Inl e \<Rightarrow> False
           | Inr None \<Rightarrow> True
           | Inr (Some product) \<Rightarrow>
               product = [] \<or>
               (case poc_dict env product of
                  Inl e \<Rightarrow> False
                | Inr pocs \<Rightarrow> list_all (\<lambda>c. \<not> isl (verify c ip p)) pocs)))"

text \<open>
  \<open>paired\<close>: every \<^verbatim>\<open>snapshot_pipeline.put\<close> in a list of calls comes right after the
  \<^verbatim>\<open>add_vulnerable\<close> of the same result, cut to six fields.
\<close>

definition paired :: "'x call list \<Rightarrow> bool" where
  "paired xs =
     (\<forall>x r. SnapshotPut x r \<in> set xs \<longrightarrow>
        (\<exists>ys zs. xs = ys @ AddVulnerable (take 6 r) # SnapshotPut x r # zs))"

text \<open>
  The calls a scan task makes on the collaborators, read off the collaborators alone.
  \<open>port_pocs\<close>: the registry's list for the product of an open, fingerprinted port (no
  PoC otherwise). \<open>verified_pocs\<close>: the PoCs of that list whose \<^verbatim>\<open>verify\<close> call is made
  and succeeds, that is the successful ones before the first that raises.
  \<open>reached_ports\<close>: the ports that are processed, up to and including the first one on
  which a call raises. \<open>verifications\<close>: every successful verification of a target, as
  the port and the PoC, in the order they are made. \<open>result_of\<close>: the result of a
  verification. \<open>port_error\<close>: the error that the first raising call of a port raises.
\<close>

definition port_pocs :: "config \<Rightarrow> 'x collab \<Rightarrow> string \<Rightarrow> port \<Rightarrow> 'x poc list" where
  "port_pocs cfg env ip p =
     (case port_scan env ip p (timeout cfg) of
        Inr True \<Rightarrow>
          (case fingerprint env ip p cfg of
             Inr (Some product) \<Rightarrow>
               if product \<noteq> [] then
                 (case poc_dict env product of Inr pocs \<Rightarrow> pocs | Inl e \<Rightarrow> [])
               else []
           | _ \<Rightarrow> [])
      | _ \<Rightarrow> [])"

definition verified_pocs :: "config \<Rightarrow> 'x collab \<Rightarrow> string \<Rightarrow> port \<Rightarrow> 'x poc list" where
  "verified_pocs cfg env ip p =
     filter (succeeds ip p) (takeWhile (\<lambda>c. \<not> isl (verify c ip p)) (port_pocs cfg env ip p))"

definition reached_ports :: "config \<Rightarrow> 'x collab \<Rightarrow> string \<Rightarrow> port list \<Rightarrow> port list" where
  "reached_ports cfg env ip ps =
     takeWhile (port_returns cfg env ip) ps @ take 1 (dropWhile (port_returns cfg env ip) ps)"

definition verifications :: "config \<Rightarrow> 'x collab \<Rightarrow> string \<Rightarrow> (port \<times> 'x poc) list" where
  "verifications cfg env target =
     concat (map (\<lambda>p. map (Pair p) (verified_pocs cfg env (target_ip target) p))
                 (reached_ports cfg env (target_ip target) (target_ports cfg target)))"

definition result_of :: "string \<Rightarrow> port \<times> 'x poc \<Rightarrow> string list" where
  "result_of ip v = (case verify (snd v) ip (fst v) of Inr (Some results) \<Rightarrow> results | _ \<Rightarrow> [])"

definition first_raise :: "string \<Rightarrow> port \<Rightarrow> 'x poc list \<Rightarrow> exn option" where
  "first_raise ip p pocs =
     (case dropWhile (\<lambda>c. \<not> isl (verify c ip p)) pocs of
        [] \<Rightarrow> None
      | c # cs \<Rightarrow> (case verify c ip p of Inl e \<Rightarrow> Some e | Inr r \<Rightarrow> None))"

definition port_error :: "config \<Rightarrow> 'x collab \<Rightarrow> string \<Rightarrow> port \<Rightarrow> exn option" where
  "port_error cfg env ip p =
     (case port_scan env ip p (timeout cfg) of
        Inl e \<Rightarrow> Some e
      | Inr False \<Rightarrow> None
      | Inr True \<Rightarrow>
          (case fingerprint env ip p cfg of
             Inl e \<Rightarrow> Some e
           | Inr None \<Rightarrow> None
           | Inr (Some product) \<Rightarrow>
               if product = [] then None
               else (case poc_dict env product of
                       Inl e \<Rightarrow> Some e
                     | Inr pocs \<Rightarrow> first_raise ip p pocs)))"

text \<open>
  \<open>clean_miss\<close>: the port is open and fingerprinted to the product, the registry lookup
  returns, and every PoC of the list returns without a finding. \<open>not_vulnerable_calls\<close>:
  the \<^verbatim>\<open>add_not_vulnerable\<close> call of such a port.
\<close>

definition clean_miss :: "config \<Rightarrow> 'x collab \<Rightarrow> string \<Rightarrow> port \<Rightarrow> string \<Rightarrow> bool" where
  "clean_miss cfg env ip p product =
     (port_scan env ip p (timeout cfg) = Inr True
      \<and> fingerprint env ip p cfg = Inr (Some product)
      \<and> product \<noteq> []
      \<and> (case poc_dict env product of
            Inl e \<Rightarrow> False
          | Inr pocs \<Rightarrow> list_all (\<lambda>c. \<not> isl (verify c ip p) \<and> \<not> succeeds ip p c) pocs))"

definition not_vulnerable_calls :: "config \<Rightarrow> 'x collab \<Rightarrow> string \<Rightarrow> port \<Rightarrow> 'x call list" where
  "not_vulnerable_calls cfg env ip p =
     (case fingerprint env ip p cfg of
        Inr (Some product) \<Rightarrow>
          if clean_miss cfg env ip p product
          then [AddNotVulnerable [ip, str_port p, product]] else []
      | _ \<Rightarrow> [])"

definition is_finding :: "'x call \<Rightarrow> bool" where
  "is_finding ev = (case ev of AddFound \<Rightarrow> True | AddVulnerable r \<Rightarrow> True | _ \<Rightarrow> False)"

definition is_add_vulnerable :: "'x call \<Rightarrow> bool" where
  "is_add_vulnerable ev = (case ev of AddVulnerable r \<Rightarrow> True | _ \<Rightarrow> False)"

definition is_add_not_vulnerable :: "'x call \<Rightarrow> bool" where
  "is_add_not_vulnerable ev = (case ev of AddNotVulnerable r \<Rightarrow> True | _ \<Rightarrow> False)"

subsection \<open>Completion\<close>

text \<open>
  \<^verbatim>\<open>Core.finish\<close>, line 29, reads \<^verbatim>\<open>self.data.done\<close>, \<^verbatim>\<open>self.data.total\<close> and
  \<^verbatim>\<open>self.snapshot_pipeline.task_count\<close>.
\<close>

record progress =
  data_done :: int
  data_total :: int
  task_count :: int

definition finish :: "progress \<Rightarrow> bool" where
  "finish s = ((data_done s \<ge> data_total s) \<and> (task_count s \<le> 0))"

subsection \<open>The report\<close>

text \<open>
  The state \<^verbatim>\<open>report\<close> and \<^verbatim>\<open>run\<close> work on: the calls made so far, what was printed, and
  the files (the lines of a file as iterating over it yields them; \<open>None\<close> when
  \<^verbatim>\<open>os.path.exists\<close> is false; opening and decoding an existing file is taken to
  succeed). A character is a code point below 256.

  The output is kept as one value per \<^verbatim>\<open>print\<close> call, with the values the call formats:
  line 46 and 57 (\<open>PrintBlank\<close>), line 47 (\<open>PrintHeader\<close>), line 51 (\<open>PrintDev\<close>, the device
  and its sum), line 54 (\<open>PrintVul\<close>, the name, \<^verbatim>\<open>block_num\<close> and the count), line 55
  (\<open>PrintSum\<close>) and line 56 (\<open>PrintRule\<close>). The colours are those of \<^verbatim>\<open>utils.color\<close>,
  outside this file.
\<close>

datatype out =
    PrintBlank
  | PrintHeader
  | PrintDev string int
  | PrintVul string int int
  | PrintSum int
  | PrintRule

record 'x world =
  calls :: "'x call list"
  stdout :: "out list"
  files :: "string \<Rightarrow> string list option"

text \<open>\<^verbatim>\<open>os.path.join\<close> of two components (posixpath).\<close>

definition path_join :: "string \<Rightarrow> string \<Rightarrow> string" where
  "path_join a b =
     (if take 1 b = ''/'' then b
      else if a = [] \<or> last a = CHR ''/'' then a @ b
      else a @ ''/'' @ b)"

text \<open>\<^verbatim>\<open>str.strip()\<close>: the characters \<^verbatim>\<open>str.isspace\<close> accepts, below 256.\<close>

definition is_space :: "char \<Rightarrow> bool" where
  "is_space c =
     (let n = (of_char c :: nat) in
      (9 \<le> n \<and> n \<le> 13) \<or> (28 \<le> n \<and> n \<le> 32) \<or> n = 133 \<or> n = 160)"

definition str_strip :: "string \<Rightarrow> string" where
  "str_strip s = rev (dropWhile is_space (rev (dropWhile is_space s)))"

text \<open>Line 36.\<close>

definition read_items :: "string list \<Rightarrow> string list list" where
  "read_items ls =
     map (\<lambda>l. str_split CHR '','' (str_strip l)) (filter (\<lambda>l. str_strip l \<noteq> []) ls)"

text \<open>
  Lines 39 to 42. A \<^verbatim>\<open>defaultdict\<close> keeps its keys in the order they were first used:
  an association list, a new key at the end. \<^verbatim>\<open>d[k] += 1\<close> on a missing key stores 1.
\<close>

fun incr :: "string \<Rightarrow> (string \<times> int) list \<Rightarrow> (string \<times> int) list" where
  "incr k [] = [(k, 0 + 1)]"
| "incr k ((k', n) # kvs) = (if k = k' then (k', n + 1) # kvs else (k', n) # incr k kvs)"

fun incr_group ::
  "string \<Rightarrow> string \<Rightarrow> (string \<times> (string \<times> int) list) list
     \<Rightarrow> (string \<times> (string \<times> int) list) list" where
  "incr_group dev vul [] = [(dev, incr vul [])]"
| "incr_group dev vul ((d, vs) # gs) =
     (if dev = d then (d, incr vul vs) # gs else (d, vs) # incr_group dev vul gs)"

fun tally ::
  "string list list \<Rightarrow> (string \<times> (string \<times> int) list) list
     \<Rightarrow> exn + (string \<times> (string \<times> int) list) list" where
  "tally [] results = Inr results"
| "tally (i # rest) results =
     (if length i > 2 then
        (case str_split CHR ''-'' (i ! 2) of
           [] \<Rightarrow> Inl (Exception ''IndexError'')
         | dev # others \<Rightarrow> tally rest (incr_group dev (last i) results))
      else Inl (Exception ''IndexError''))"

text \<open>Line 44.\<close>

definition all_counts :: "(string \<times> (string \<times> int) list) list \<Rightarrow> int list" where
  "all_counts results = concat (map (\<lambda>(dev, vul). map snd vul) results)"

fun py_max :: "int list \<Rightarrow> exn + int" where
  "py_max [] = Inl (Exception ''ValueError'')"
| "py_max (x # xs) = Inr (fold max xs x)"

text \<open>
  Line 53. \<^verbatim>\<open>/\<close> is true division, here on exact rationals, and \<^verbatim>\<open>int\<close> truncates towards
  zero.
\<close>

definition py_int :: "rat \<Rightarrow> int" where
  "py_int x = (if x \<ge> 0 then \<lfloor>x\<rfloor> else \<lceil>x\<rceil>)"

definition block_num :: "int \<Rightarrow> int \<Rightarrow> exn + int" where
  "block_num vul_count results_max =
     (if results_max = 0 then Inl (Exception ''ZeroDivisionError'')
      else Inr (py_int (of_int vul_count / of_int results_max * 25)))"

text \<open>Lines 52 to 54.\<close>

fun print_vuls :: "(string \<times> int) list \<Rightarrow> int \<Rightarrow> out list \<Rightarrow> (exn + unit) \<times> out list" where
  "print_vuls [] results_max ou = (Inr (), ou)"
| "print_vuls ((vul_name, vul_count) # vuls) results_max ou =
     (case block_num vul_count results_max of
        Inl e \<Rightarrow> (Inl e, ou)
      | Inr b \<Rightarrow> print_vuls vuls results_max (ou @ [PrintVul vul_name b vul_count]))"

text \<open>Lines 48 to 54.\<close>

fun print_groups ::
  "(string \<times> (string \<times> int) list) list \<Rightarrow> int \<Rightarrow> out list \<Rightarrow> (exn + unit) \<times> out list" where
  "print_groups [] results_max ou = (Inr (), ou)"
| "print_groups ((dev, vuls) # gs) results_max ou =
     (case print_vuls vuls results_max (ou @ [PrintDev dev (sum_list (map snd vuls))]) of
        (Inl e, ou') \<Rightarrow> (Inl e, ou')
      | (Inr u, ou') \<Rightarrow> print_groups gs results_max ou')"

text \<open>Lines 38 to 57: what \<^verbatim>\<open>report\<close> prints for the items of a log.\<close>

definition print_report :: "string list list \<Rightarrow> out list \<Rightarrow> (exn + unit) \<times> out list" where
  "print_report items ou =
     (if items \<noteq> [] then
        (case tally items [] of
           Inl e \<Rightarrow> (Inl e, ou)
         | Inr results \<Rightarrow>
             (case py_max (all_counts results) of
                Inl e \<Rightarrow> (Inl e, ou)
              | Inr results_max \<Rightarrow>
                  (case print_groups results results_max (ou @ [PrintBlank, PrintHeader]) of
                     (Inl e, ou') \<Rightarrow> (Inl e, ou')
                   | (Inr u, ou') \<Rightarrow>
                       (Inr (), ou' @ [PrintSum (int (length items)), PrintRule, PrintBlank]))))
      else (Inr (), ou))"

text \<open>\<^verbatim>\<open>Core.report\<close>, lines 31 to 57.\<close>

definition report :: "config \<Rightarrow> 'x world \<Rightarrow> (exn + unit) \<times> 'x world" where
  "report cfg w =
     (case files w (path_join (out_dir cfg) (vulnerable cfg)) of
        None \<Rightarrow> (Inr (), w)
      | Some ls \<Rightarrow>
          (case print_report (read_items ls) (stdout w) of
             (r, ou) \<Rightarrow> (r, w\<lparr>stdout := ou\<rparr>)))"

text \<open>What one call of \<^verbatim>\<open>report\<close> adds to the output.\<close>

definition report_output :: "config \<Rightarrow> 'x world \<Rightarrow> out list" where
  "report_output cfg w = drop (length (stdout w)) (stdout (snd (report cfg w)))"

text \<open>
  What the theorems about the report are stated with: the counts shown in the output,
  the lines of one group, and the groups whose counts are all positive.
\<close>

fun vul_counts :: "out list \<Rightarrow> int list" where
  "vul_counts [] = []"
| "vul_counts (PrintVul vul_name b vul_count # ou) = vul_count # vul_counts ou"
| "vul_counts (other # ou) = vul_counts ou"

definition group_lines :: "int \<Rightarrow> string \<times> (string \<times> int) list \<Rightarrow> out list" where
  "group_lines results_max g =
     PrintDev (fst g) (sum_list (map snd (snd g)))
       # map (\<lambda>v. PrintVul (fst v) (py_int (of_int (snd v) / of_int results_max * 25)) (snd v))
             (snd g)"

definition positive :: "(string \<times> (string \<times> int) list) list \<Rightarrow> bool" where
  "positive results = list_all (\<lambda>g. snd g \<noteq> [] \<and> list_all (\<lambda>v. 1 \<le> snd v) (snd g)) results"

subsection \<open>The run\<close>

text \<open>
  \<^verbatim>\<open>Core.run\<close>, lines 94 to 129. Lines 100 to 121 start the greenlets, feed the pool and
  join: they are the parameter \<open>scanning\<close>, a step on the state that returns or raises.
  \<open>handler\<close> is the two \<^verbatim>\<open>except\<close> clauses, lines 125 to 129: what neither clause matches
  goes on. \<open>run_try\<close> is the \<^verbatim>\<open>try\<close> statement, lines 98 to 129.
\<close>

definition handler :: "exn \<Rightarrow> 'x world \<Rightarrow> (exn + unit) \<times> 'x world" where
  "handler e w =
     (case e of
        KeyboardInterrupt \<Rightarrow> (Inr (), w)
      | Exception m \<Rightarrow> (Inr (), w\<lparr>calls := calls w @ [LogError e]\<rparr>)
      | BaseException m \<Rightarrow> (Inl e, w))"

definition run_try ::
  "config \<Rightarrow> ('x world \<Rightarrow> (exn + unit) \<times> 'x world) \<Rightarrow> 'x world
     \<Rightarrow> (exn + unit) \<times> 'x world" where
  "run_try cfg scanning w0 =
     (case scanning w0 of
        (Inl e, w1) \<Rightarrow> handler e w1
      | (Inr u, w1) \<Rightarrow>
          (case report cfg w1 of
             (Inl e, w2) \<Rightarrow> handler e w2
           | (Inr u', w2) \<Rightarrow> (Inr (), w2)))"

text \<open>
  Lines 95 and 96 stand before the \<^verbatim>\<open>try\<close>: \<open>now\<close> is the call
  \<^verbatim>\<open>timer.get_time_formatted()\<close> and \<open>cfg_str\<close> the formatting of \<^verbatim>\<open>self.config\<close>, each of
  which returns a string or raises, and what they raise leaves \<^verbatim>\<open>run\<close>.
\<close>

definition run ::
  "config \<Rightarrow> exn + string \<Rightarrow> exn + string \<Rightarrow> ('x world \<Rightarrow> (exn + unit) \<times> 'x world)
     \<Rightarrow> 'x world \<Rightarrow> (exn + unit) \<times> 'x world" where
  "run cfg now cfg_str scanning w =
     (case now of
        Inl e \<Rightarrow> (Inl e, w)
      | Inr t \<Rightarrow>
          (let w' = w\<lparr>calls := calls w @ [LogInfo (''running at '' @ t)]\<rparr> in
           case cfg_str of
             Inl e \<Rightarrow> (Inl e, w')
           | Inr c \<Rightarrow>
               run_try cfg scanning (w'\<lparr>calls := calls w' @ [LogInfo (''config is '' @ c)]\<rparr>)))"

subsection \<open>Example inputs\<close>

text \<open>
  A configuration with two ports and snapshots enabled, and three PoCs: one that reports
  a finding of seven fields, one that reports nothing, one that raises.
\<close>

definition cfg_ex :: config where
  "cfg_ex = \<lparr>ports = [PortNum 22, PortNum 80], timeout = 3, th_num = 8,
              out_dir = ''out'', vulnerable = ''results.csv'', disable_snapshot = False\<rparr>"

definition poc_hit :: "string poc" where
  "poc_hit = \<lparr>verify = (\<lambda>ip p. Inr (Some [ip, str_port p, ''camera-x-cve1'', ''admin'',
                                        ''12345'', ''rtsp'', ''weak-password''])),
              exploit = ''exploit_hit''\<rparr>"

definition poc_miss :: "string poc" where
  "poc_miss = \<lparr>verify = (\<lambda>ip p. Inr None), exploit = ''exploit_miss''\<rparr>"

definition poc_raise :: "string poc" where
  "poc_raise = \<lparr>verify = (\<lambda>ip p. Inl (Exception ''connection reset'')),
                exploit = ''exploit_raise''\<rparr>"

text \<open>Every port is closed.\<close>

definition env_closed :: "string collab" where
  "env_closed = \<lparr>port_scan = (\<lambda>ip p t. Inr False),
                 fingerprint = (\<lambda>ip p c. Inr None),
                 poc_dict = (\<lambda>product. Inr [])\<rparr>"

text \<open>Every port is open and is a \<^verbatim>\<open>camera-x\<close>, whose PoCs are: hit, miss, hit.\<close>

definition env_hits :: "string collab" where
  "env_hits = \<lparr>port_scan = (\<lambda>ip p t. Inr True),
               fingerprint = (\<lambda>ip p c. Inr (Some ''camera-x'')),
               poc_dict = (\<lambda>product. Inr [poc_hit, poc_miss, poc_hit])\<rparr>"

text \<open>Every port is open and is a \<^verbatim>\<open>camera-x\<close>, with one PoC, which finds nothing.\<close>

definition env_miss :: "string collab" where
  "env_miss = \<lparr>port_scan = (\<lambda>ip p t. Inr True),
               fingerprint = (\<lambda>ip p c. Inr (Some ''camera-x'')),
               poc_dict = (\<lambda>product. Inr [poc_miss])\<rparr>"

text \<open>Every port is open and is a \<^verbatim>\<open>camera-x\<close>, whose first PoC raises.\<close>

definition env_raise :: "string collab" where
  "env_raise = \<lparr>port_scan = (\<lambda>ip p t. Inr True),
                fingerprint = (\<lambda>ip p c. Inr (Some ''camera-x'')),
                poc_dict = (\<lambda>product. Inr [poc_raise, poc_hit])\<rparr>"

text \<open>Every port is open and is a \<^verbatim>\<open>camera-x\<close>, whose PoCs are: hit, raise, hit.\<close>

definition env_hit_raise_hit :: "string collab" where
  "env_hit_raise_hit = \<lparr>port_scan = (\<lambda>ip p t. Inr True),
                        fingerprint = (\<lambda>ip p c. Inr (Some ''camera-x'')),
                        poc_dict = (\<lambda>product. Inr [poc_hit, poc_raise, poc_hit])\<rparr>"

text \<open>Every port is open and is a \<^verbatim>\<open>camera-x\<close>, whose PoCs are: miss, raise.\<close>

definition env_miss_raise :: "string collab" where
  "env_miss_raise = \<lparr>port_scan = (\<lambda>ip p t. Inr True),
                     fingerprint = (\<lambda>ip p c. Inr (Some ''camera-x'')),
                     poc_dict = (\<lambda>product. Inr [poc_miss, poc_raise])\<rparr>"

text \<open>
  A result log of five findings, three of one vulnerability and two of another, each line
  ending in a newline; and a log whose only line has two fields.
\<close>

definition log_ex :: "string list" where
  "log_ex =
     [''10.0.0.1,80,cam-cve1,admin,12345,weak-password'' @ [CHR 0x0A],
      ''10.0.0.2,80,cam-cve1,admin,12345,weak-password'' @ [CHR 0x0A],
      ''10.0.0.3,81,dvr-cve2,root,pass,auth-bypass'' @ [CHR 0x0A],
      ''10.0.0.4,80,cam-cve1,admin,12345,weak-password'' @ [CHR 0x0A],
      ''10.0.0.5,81,dvr-cve2,root,pass,auth-bypass'' @ [CHR 0x0A]]"

definition world_ex :: "string world" where
  "world_ex = \<lparr>calls = [], stdout = [],
                files = (\<lambda>path. if path = ''out/results.csv'' then Some log_ex else None)\<rparr>"

definition world_short :: "string world" where
  "world_short = \<lparr>calls = [], stdout = [],
                   files = (\<lambda>path. if path = ''out/results.csv''
                                     then Some [''10.0.0.1,80'' @ [CHR 0x0A]] else None)\<rparr>"

text \<open>Four ways the scanning phase of \<^verbatim>\<open>run\<close> can end.\<close>

definition scanning_ok :: "string world \<Rightarrow> (exn + unit) \<times> string world" where
  "scanning_ok w = (Inr (), w)"

definition scanning_interrupted :: "string world \<Rightarrow> (exn + unit) \<times> string world" where
  "scanning_interrupted w = (Inl KeyboardInterrupt, w)"

definition scanning_failed :: "string world \<Rightarrow> (exn + unit) \<times> string world" where
  "scanning_failed w = (Inl (Exception ''pool error''), w)"

definition scanning_exits :: "string world \<Rightarrow> (exn + unit) \<times> string world" where
  "scanning_exits w = (Inl (BaseException ''SystemExit''), w)"

section \<open>Properties of the scan task\<close>

subsection \<open>The calls of the loops\<close>

lemma str_split_nonempty: "str_split c s \<noteq> []"
  by (induction s) (auto split: list.splits)

lemma poc_loop_snd:
  "snd (poc_loop cfg ip p cs v tr) =
     tr @ concat (map (poc_calls cfg ip p) (takeWhile (\<lambda>c. \<not> isl (verify c ip p)) cs))"
  by (induction cs arbitrary: v tr)
     (auto simp: poc_calls_def split: sum.splits option.splits)

lemma poc_loop_fst:
  "list_all (\<lambda>c. \<not> isl (verify c ip p)) cs \<Longrightarrow>
     fst (poc_loop cfg ip p cs v tr) = Inr (v \<or> (\<exists>c\<in>set cs. succeeds ip p c))"
  by (induction cs arbitrary: v tr)
     (auto simp: succeeds_def split: sum.splits option.splits)

lemma poc_loop_raises:
  "\<not> list_all (\<lambda>c. \<not> isl (verify c ip p)) cs \<Longrightarrow> isl (fst (poc_loop cfg ip p cs v tr))"
  by (induction cs arbitrary: v tr)
     (auto simp: succeeds_def split: sum.splits option.splits)

lemma poc_loop_fst_explicit:
  "fst (poc_loop cfg ip p cs v tr) =
     (case find (\<lambda>c. isl (verify c ip p)) cs of
        Some c \<Rightarrow> Inl (projl (verify c ip p))
      | None \<Rightarrow> Inr (v \<or> (\<exists>c\<in>set cs. succeeds ip p c)))"
proof (induction cs arbitrary: v tr)
  case Nil
  show ?case by simp
next
  case (Cons c cs)
  show ?case
  proof (cases "verify c ip p")
    case (Inl e)
    then show ?thesis by simp
  next
    case (Inr r)
    show ?thesis
    proof (cases r)
      case None
      with Inr Cons.IH [of v tr] show ?thesis by (simp add: succeeds_def split: option.splits)
    next
      case (Some res)
      with Inr Cons.IH [of v tr] Cons.IH [of True]
      show ?thesis by (cases "res = []") (simp_all add: succeeds_def split: option.splits)
    qed
  qed
qed

lemma poc_loop_eq:
  "poc_loop cfg ip p cs v tr =
     (fst (poc_loop cfg ip p cs v []),
      tr @ concat (map (poc_calls cfg ip p) (takeWhile (\<lambda>c. \<not> isl (verify c ip p)) cs)))"
proof -
  have "fst (poc_loop cfg ip p cs v tr) = fst (poc_loop cfg ip p cs v [])"
    by (simp add: poc_loop_fst_explicit)
  then show ?thesis
    using poc_loop_snd [of cfg ip p cs v tr] by (simp add: prod_eq_iff)
qed

lemma scan_port_matched:
  assumes "port_scan env ip p (timeout cfg) = Inr True"
    and "fingerprint env ip p cfg = Inr (Some product)"
    and "product \<noteq> []"
    and "poc_dict env product = Inr pocs"
  shows "scan_port cfg env ip p tr =
     (case fst (poc_loop cfg ip p pocs False []) of
        Inl e \<Rightarrow> Inl e
      | Inr verified \<Rightarrow> Inr (),
      tr @ [LogInfo (ip @ '' port '' @ str_port p @ '' is open''),
            LogInfo (ip @ '':'' @ str_port p @ '' is '' @ product)]
         @ concat (map (poc_calls cfg ip p) (takeWhile (\<lambda>c. \<not> isl (verify c ip p)) pocs))
         @ (if fst (poc_loop cfg ip p pocs False []) = Inr False
            then [AddNotVulnerable [ip, str_port p, product]] else []))"
proof -
  let ?tr2 = "tr @ [LogInfo (ip @ '' port '' @ str_port p @ '' is open'')]
                @ [LogInfo (ip @ '':'' @ str_port p @ '' is '' @ product)]"
  have eq: "poc_loop cfg ip p pocs False ?tr2 =
     (fst (poc_loop cfg ip p pocs False []),
      ?tr2 @ concat (map (poc_calls cfg ip p) (takeWhile (\<lambda>c. \<not> isl (verify c ip p)) pocs)))"
    by (rule poc_loop_eq)
  show ?thesis
  proof (cases "fst (poc_loop cfg ip p pocs False [])")
    case (Inl e)
    with assms eq show ?thesis by (simp add: scan_port_def)
  next
    case (Inr v)
    with assms eq show ?thesis by (cases v) (simp_all add: scan_port_def)
  qed
qed

lemma scan_port_frame:
  "scan_port cfg env ip p tr =
     (fst (scan_port cfg env ip p []), tr @ snd (scan_port cfg env ip p []))"
proof (cases "port_scan env ip p (timeout cfg)")
  case (Inl e)
  then show ?thesis by (simp add: scan_port_def)
next
  case (Inr opened)
  show ?thesis
  proof (cases opened)
    case False
    with Inr show ?thesis by (simp add: scan_port_def)
  next
    case True
    with Inr have op: "port_scan env ip p (timeout cfg) = Inr True" by simp
    show ?thesis
    proof (cases "fingerprint env ip p cfg")
      case (Inl e)
      with op show ?thesis by (simp add: scan_port_def)
    next
      case (Inr fp)
      show ?thesis
      proof (cases fp)
        case None
        with op Inr show ?thesis by (simp add: scan_port_def)
      next
        case (Some product)
        with Inr have fpr: "fingerprint env ip p cfg = Inr (Some product)" by simp
        show ?thesis
        proof (cases "product = []")
          case True
          with op fpr show ?thesis by (simp add: scan_port_def)
        next
          case False
          show ?thesis
          proof (cases "poc_dict env product")
            case (Inl e)
            with op fpr False show ?thesis by (simp add: scan_port_def)
          next
            case (Inr pocs)
            show ?thesis
              by (simp add: scan_port_matched [OF op fpr False Inr])
          qed
        qed
      qed
    qed
  qed
qed

lemma scan_port_returns:
  "(fst (scan_port cfg env ip p tr) = Inr ()) = port_returns cfg env ip p"
proof (cases "port_scan env ip p (timeout cfg)")
  case (Inl e)
  then show ?thesis by (simp add: scan_port_def port_returns_def)
next
  case (Inr opened)
  show ?thesis
  proof (cases opened)
    case False
    with Inr show ?thesis by (simp add: scan_port_def port_returns_def)
  next
    case True
    with Inr have op: "port_scan env ip p (timeout cfg) = Inr True" by simp
    show ?thesis
    proof (cases "fingerprint env ip p cfg")
      case (Inl e)
      with op show ?thesis by (simp add: scan_port_def port_returns_def)
    next
      case (Inr fp)
      show ?thesis
      proof (cases fp)
        case None
        with op Inr show ?thesis by (simp add: scan_port_def port_returns_def)
      next
        case (Some product)
        with Inr have fpr: "fingerprint env ip p cfg = Inr (Some product)" by simp
        show ?thesis
        proof (cases "product = []")
          case True
          with op fpr show ?thesis by (simp add: scan_port_def port_returns_def)
        next
          case False
          show ?thesis
          proof (cases "poc_dict env product")
            case (Inl e)
            with op fpr False show ?thesis by (simp add: scan_port_def port_returns_def)
          next
            case (Inr pocs)
            have "(\<exists>v. fst (poc_loop cfg ip p pocs False []) = Inr v)
                    = list_all (\<lambda>c. \<not> isl (verify c ip p)) pocs"
              using poc_loop_fst [of ip p pocs cfg False "[]"]
                    poc_loop_raises [of ip p pocs cfg False "[]"]
              by (cases "list_all (\<lambda>c. \<not> isl (verify c ip p)) pocs") auto
            then show ?thesis
              using op fpr False Inr
              by (cases "fst (poc_loop cfg ip p pocs False [])")
                 (auto simp: scan_port_matched [OF op fpr False Inr] port_returns_def)
          qed
        qed
      qed
    qed
  qed
qed

lemma port_loop_frame:
  "port_loop cfg env ip ps tr =
     (fst (port_loop cfg env ip ps []), tr @ snd (port_loop cfg env ip ps []))"
proof (induction ps arbitrary: tr)
  case Nil
  show ?case by simp
next
  case (Cons p ps)
  obtain r evs where sp: "scan_port cfg env ip p [] = (r, evs)"
    by (cases "scan_port cfg env ip p []")
  then have sp': "scan_port cfg env ip p tr = (r, tr @ evs)"
    using scan_port_frame [of cfg env ip p tr] by simp
  show ?case
  proof (cases r)
    case (Inl e)
    with sp sp' show ?thesis by simp
  next
    case (Inr u)
    with sp sp' Cons.IH [of "tr @ evs"] Cons.IH [of evs] show ?thesis by simp
  qed
qed

lemma port_loop_returns:
  "(fst (port_loop cfg env ip ps tr) = Inr ()) = list_all (port_returns cfg env ip) ps"
proof (induction ps arbitrary: tr)
  case Nil
  show ?case by simp
next
  case (Cons p ps)
  obtain r tr' where sp: "scan_port cfg env ip p tr = (r, tr')"
    by (cases "scan_port cfg env ip p tr")
  with scan_port_returns [of cfg env ip p tr]
  have "(r = Inr ()) = port_returns cfg env ip p" by simp
  with sp Cons.IH [of tr'] show ?case
    by (cases r) auto
qed

lemma port_loop_append:
  "fst (port_loop cfg env ip pre tr) = Inr () \<Longrightarrow>
     port_loop cfg env ip (pre @ post) tr = port_loop cfg env ip post (snd (port_loop cfg env ip pre tr))"
proof (induction pre arbitrary: tr)
  case Nil
  show ?case by simp
next
  case (Cons p ps)
  then show ?case
    by (cases "scan_port cfg env ip p tr") (auto split: sum.splits)
qed


lemma port_loop_app:
  "snd (port_loop cfg env ip ps tr) = tr @ snd (port_loop cfg env ip ps [])"
  using port_loop_frame [of cfg env ip ps tr] by simp

lemma port_loop_Cons:
  "snd (port_loop cfg env ip (p # ps) []) =
     snd (scan_port cfg env ip p []) @
       (if port_returns cfg env ip p then snd (port_loop cfg env ip ps []) else [])"
proof -
  obtain r evs where sp: "scan_port cfg env ip p [] = (r, evs)"
    by (cases "scan_port cfg env ip p []")
  with scan_port_returns [of cfg env ip p "[]"]
  have r: "(r = Inr ()) = port_returns cfg env ip p" by simp
  show ?thesis
  proof (cases r)
    case (Inl e)
    with sp r show ?thesis by simp
  next
    case (Inr u)
    with sp r port_loop_app [of cfg env ip ps evs] show ?thesis by simp
  qed
qed

lemma port_loop_events:
  "ev \<in> set (snd (port_loop cfg env ip ps [])) \<Longrightarrow>
     \<exists>p\<in>set ps. ev \<in> set (snd (scan_port cfg env ip p []))"
proof (induction ps)
  case Nil
  then show ?case by simp
next
  case (Cons p ps)
  then show ?case
    by (auto simp: port_loop_Cons simp del: port_loop.simps split: if_splits)
qed

lemma scan_snd:
  "snd (scan cfg env target tr) =
     tr @ snd (port_loop cfg env (target_ip target) (target_ports cfg target) [])
        @ (if list_all (port_returns cfg env (target_ip target)) (target_ports cfg target)
           then [AddDone, RecordRunningState] else [])"
proof -
  let ?ip = "target_ip target" and ?ps = "target_ports cfg target"
  obtain r evs where pl: "port_loop cfg env ?ip ?ps tr = (r, evs)"
    by (cases "port_loop cfg env ?ip ?ps tr")
  with port_loop_returns [of cfg env ?ip ?ps tr] port_loop_app [of cfg env ?ip ?ps tr]
  have r: "(r = Inr ()) = list_all (port_returns cfg env ?ip) ?ps"
    and evs: "evs = tr @ snd (port_loop cfg env ?ip ?ps [])" by simp_all
  show ?thesis
  proof (cases r)
    case (Inl e)
    with pl r evs show ?thesis by (simp add: scan_def)
  next
    case (Inr u)
    with pl r evs show ?thesis by (simp add: scan_def)
  qed
qed

lemma scan_fst:
  "(fst (scan cfg env target tr) = Inr ())
     = list_all (port_returns cfg env (target_ip target)) (target_ports cfg target)"
proof -
  let ?ip = "target_ip target" and ?ps = "target_ports cfg target"
  obtain r evs where pl: "port_loop cfg env ?ip ?ps tr = (r, evs)"
    by (cases "port_loop cfg env ?ip ?ps tr")
  with port_loop_returns [of cfg env ?ip ?ps tr]
  have r: "(r = Inr ()) = list_all (port_returns cfg env ?ip) ?ps" by simp
  show ?thesis
  proof (cases r)
    case (Inl e)
    with pl r show ?thesis by (simp add: scan_def)
  next
    case (Inr u)
    with pl r show ?thesis by (simp add: scan_def)
  qed
qed

lemma poc_calls_events:
  assumes "ev \<in> set (poc_calls cfg ip p c)"
  shows "\<exists>results. verify c ip p = Inr (Some results) \<and> results \<noteq> [] \<and>
       (ev = AddFound \<or> ev = AddVulnerable (take 6 results) \<or>
        (\<not> disable_snapshot cfg \<and> ev = SnapshotPut (exploit c) results))"
proof (cases "verify c ip p")
  case (Inl e)
  with assms show ?thesis by (simp add: poc_calls_def)
next
  case (Inr r)
  with assms show ?thesis
    by (cases r) (auto simp: poc_calls_def split: if_splits)
qed

lemma scan_port_events:
  assumes "ev \<in> set (snd (scan_port cfg env ip p []))"
  shows "(\<exists>s. ev = LogInfo s) \<or>
     (\<exists>product pocs. port_scan env ip p (timeout cfg) = Inr True \<and>
        fingerprint env ip p cfg = Inr (Some product) \<and> product \<noteq> [] \<and>
        poc_dict env product = Inr pocs \<and>
        (ev = AddNotVulnerable [ip, str_port p, product] \<or>
         (\<exists>c\<in>set pocs. ev \<in> set (poc_calls cfg ip p c))))"
proof (cases "port_scan env ip p (timeout cfg)")
  case (Inl e)
  with assms show ?thesis by (simp add: scan_port_def)
next
  case (Inr opened)
  show ?thesis
  proof (cases opened)
    case False
    with Inr assms show ?thesis by (simp add: scan_port_def)
  next
    case True
    with Inr have op: "port_scan env ip p (timeout cfg) = Inr True" by simp
    show ?thesis
    proof (cases "fingerprint env ip p cfg")
      case (Inl e)
      with op assms show ?thesis by (simp add: scan_port_def)
    next
      case (Inr fp)
      show ?thesis
      proof (cases fp)
        case None
        with op Inr assms show ?thesis by (simp add: scan_port_def)
      next
        case (Some product)
        with Inr have fpr: "fingerprint env ip p cfg = Inr (Some product)" by simp
        show ?thesis
        proof (cases "product = []")
          case True
          with op fpr assms show ?thesis by (simp add: scan_port_def)
        next
          case False
          show ?thesis
          proof (cases "poc_dict env product")
            case (Inl e)
            with op fpr False assms show ?thesis by (auto simp: scan_port_def)
          next
            case (Inr pocs)
            have "set (takeWhile (\<lambda>c. \<not> isl (verify c ip p)) pocs) \<subseteq> set pocs"
              by (auto dest: set_takeWhileD)
            with assms op fpr False Inr show ?thesis
              by (auto simp: scan_port_matched [OF op fpr False Inr] split: if_splits)
          qed
        qed
      qed
    qed
  qed
qed

lemma port_loop_stops:
  assumes "list_all (port_returns cfg env ip) pre" and "\<not> port_returns cfg env ip p"
  shows "\<exists>e. port_loop cfg env ip (pre @ p # post) tr =
           (Inl e, tr @ snd (port_loop cfg env ip (pre @ [p]) []))"
proof -
  have pre: "fst (port_loop cfg env ip pre tr') = Inr ()" for tr'
    using assms(1) by (simp add: port_loop_returns)
  obtain r evs where sp: "scan_port cfg env ip p [] = (r, evs)"
    by (cases "scan_port cfg env ip p []")
  with scan_port_returns [of cfg env ip p "[]"] assms(2)
  obtain e where r: "r = Inl e" by (cases r) auto
  have stop: "port_loop cfg env ip (p # qs) tr' = (Inl e, tr' @ evs)" for qs tr'
    using scan_port_frame [of cfg env ip p tr'] sp r by simp
  have "port_loop cfg env ip (pre @ p # post) tr =
          (Inl e, snd (port_loop cfg env ip pre tr) @ evs)"
    using port_loop_append [OF pre, of "p # post" tr] stop by simp
  moreover have "port_loop cfg env ip (pre @ [p]) [] =
          (Inl e, snd (port_loop cfg env ip pre []) @ evs)"
    using port_loop_append [OF pre, of "[p]" "[]"] stop by simp
  ultimately show ?thesis
    using port_loop_app [of cfg env ip pre tr] by simp
qed

lemma port_loop_no_done:
  "AddDone \<notin> set (snd (port_loop cfg env ip ps []))"
  "RecordRunningState \<notin> set (snd (port_loop cfg env ip ps []))"
proof -
  have a: "ev \<in> set (snd (scan_port cfg env ip p [])) \<Longrightarrow> ev \<noteq> AddDone \<and> ev \<noteq> RecordRunningState"
    for ev :: "'a call" and p
    by (auto dest!: scan_port_events poc_calls_events)
  show "AddDone \<notin> set (snd (port_loop cfg env ip ps []))"
    using a by (auto dest!: port_loop_events)
  show "RecordRunningState \<notin> set (snd (port_loop cfg env ip ps []))"
    using a by (auto dest!: port_loop_events)
qed

subsection \<open>Completion of a target\<close>

text \<open>
  Claim C2. For a target whose ports have all been processed (no collaborator call
  raised), \<^verbatim>\<open>add_done\<close> and \<^verbatim>\<open>record_running_state\<close> are each called exactly once, as the
  last two calls of the task, whatever the ports and products were, also when no port is
  open.
\<close>

theorem scan_done_once:
  assumes "list_all (port_returns cfg env (target_ip target)) (target_ports cfg target)"
  shows "\<exists>evs. scan cfg env target tr = (Inr (), tr @ evs @ [AddDone, RecordRunningState])
           \<and> AddDone \<notin> set evs \<and> RecordRunningState \<notin> set evs"
proof -
  let ?evs = "snd (port_loop cfg env (target_ip target) (target_ports cfg target) [])"
  have "fst (scan cfg env target tr) = Inr ()"
    using assms by (simp add: scan_fst)
  moreover have "snd (scan cfg env target tr) = tr @ ?evs @ [AddDone, RecordRunningState]"
    using assms by (simp add: scan_snd)
  ultimately have "scan cfg env target tr = (Inr (), tr @ ?evs @ [AddDone, RecordRunningState])"
    by (simp add: prod_eq_iff)
  then show ?thesis
    using port_loop_no_done [of cfg env "target_ip target" "target_ports cfg target"] by blast
qed

text \<open>Claim C2 at the target \<^verbatim>\<open>10.0.0.2\<close> with ports 22 and 80, both closed: the only
  calls are the two.\<close>

theorem scan_done_once_witness:
  "list_all (port_returns cfg_ex env_closed (target_ip ''10.0.0.2'')) (target_ports cfg_ex ''10.0.0.2'')
   \<and> target_ports cfg_ex ''10.0.0.2'' = [PortNum 22, PortNum 80]
   \<and> (\<exists>evs. scan cfg_ex env_closed ''10.0.0.2'' [] = (Inr (), [] @ evs @ [AddDone, RecordRunningState])
           \<and> AddDone \<notin> set evs \<and> RecordRunningState \<notin> set evs)"
proof -
  have h: "list_all (port_returns cfg_ex env_closed (target_ip ''10.0.0.2'')) (target_ports cfg_ex ''10.0.0.2'')"
    by code_simp
  have p: "target_ports cfg_ex ''10.0.0.2'' = [PortNum 22, PortNum 80]"
    by code_simp
  from scan_done_once [OF h, of "[]"] h p show ?thesis by simp
qed

subsection \<open>Records and snapshot jobs\<close>

lemma scan_events:
  assumes "ev \<in> set (snd (scan cfg env target []))"
    and "ev \<noteq> AddDone" and "ev \<noteq> RecordRunningState"
  shows "\<exists>p\<in>set (target_ports cfg target).
           ev \<in> set (snd (scan_port cfg env (target_ip target) p []))"
  using assms by (auto simp: scan_snd split: if_splits dest: port_loop_events)

lemma paired_Nil: "paired []"
  by (simp add: paired_def)

lemma paired_append:
  assumes "paired xs" and "paired ys"
  shows "paired (xs @ ys)"
  unfolding paired_def
proof (intro allI impI)
  fix x r
  assume "SnapshotPut x r \<in> set (xs @ ys)"
  then consider "SnapshotPut x r \<in> set xs" | "SnapshotPut x r \<in> set ys" by auto
  then show "\<exists>us vs. xs @ ys = us @ AddVulnerable (take 6 r) # SnapshotPut x r # vs"
  proof cases
    case 1
    with assms(1) obtain us vs where "xs = us @ AddVulnerable (take 6 r) # SnapshotPut x r # vs"
      unfolding paired_def by blast
    then have "xs @ ys = us @ AddVulnerable (take 6 r) # SnapshotPut x r # (vs @ ys)" by simp
    then show ?thesis by blast
  next
    case 2
    with assms(2) obtain us vs where "ys = us @ AddVulnerable (take 6 r) # SnapshotPut x r # vs"
      unfolding paired_def by blast
    then have "xs @ ys = (xs @ us) @ AddVulnerable (take 6 r) # SnapshotPut x r # vs" by simp
    then show ?thesis by blast
  qed
qed

lemma paired_no_put:
  "(\<And>x r. SnapshotPut x r \<notin> set xs) \<Longrightarrow> paired xs"
  by (simp add: paired_def)

lemma paired_poc_calls: "paired (poc_calls cfg ip p c)"
proof (cases "verify c ip p")
  case (Inl e)
  then show ?thesis by (simp add: poc_calls_def paired_def)
next
  case (Inr res)
  show ?thesis
  proof (cases res)
    case None
    with Inr show ?thesis by (simp add: poc_calls_def paired_def)
  next
    case (Some results)
    have "[AddFound, AddVulnerable (take 6 results), SnapshotPut (exploit c) results]
            = [AddFound] @ AddVulnerable (take 6 results) # SnapshotPut (exploit c) results # []"
      by simp
    then have "paired [AddFound, AddVulnerable (take 6 results), SnapshotPut (exploit c) results]"
      unfolding paired_def by (metis (no_types) call.distinct call.inject empty_iff empty_set set_ConsD)
    with Inr Some show ?thesis
      by (auto simp: poc_calls_def paired_Nil intro: paired_no_put)
  qed
qed

lemma paired_concat:
  "(\<And>x. x \<in> set xs \<Longrightarrow> paired (f x)) \<Longrightarrow> paired (concat (map f xs))"
  by (induction xs) (simp_all add: paired_Nil paired_append)


lemma paired_scan_port: "paired (snd (scan_port cfg env ip p []))"
proof -
  have a: "paired (snd (scan_port cfg env ip p []))"
    if "\<And>x r. SnapshotPut x r \<notin> set (snd (scan_port cfg env ip p []))"
    using that by (rule paired_no_put)
  show ?thesis
  proof (cases "\<exists>product pocs. port_scan env ip p (timeout cfg) = Inr True \<and>
        fingerprint env ip p cfg = Inr (Some product) \<and> product \<noteq> [] \<and>
        poc_dict env product = Inr pocs")
    case True
    then obtain product pocs where op: "port_scan env ip p (timeout cfg) = Inr True"
      and fpr: "fingerprint env ip p cfg = Inr (Some product)" and ne: "product \<noteq> []"
      and d: "poc_dict env product = Inr pocs" by blast
    have 1: "paired [LogInfo (ip @ '' port '' @ str_port p @ '' is open''),
                     LogInfo (ip @ '':'' @ str_port p @ '' is '' @ product)]"
      by (rule paired_no_put) simp
    have 2: "paired (concat (map (poc_calls cfg ip p)
                 (takeWhile (\<lambda>c. \<not> isl (verify c ip p)) pocs)))"
      by (rule paired_concat) (rule paired_poc_calls)
    have 3: "paired (if fst (poc_loop cfg ip p pocs False []) = Inr False
                     then [AddNotVulnerable [ip, str_port p, product]] else [])"
      by (rule paired_no_put) simp
    have "snd (scan_port cfg env ip p []) =
        [LogInfo (ip @ '' port '' @ str_port p @ '' is open''),
         LogInfo (ip @ '':'' @ str_port p @ '' is '' @ product)]
         @ concat (map (poc_calls cfg ip p) (takeWhile (\<lambda>c. \<not> isl (verify c ip p)) pocs))
         @ (if fst (poc_loop cfg ip p pocs False []) = Inr False
            then [AddNotVulnerable [ip, str_port p, product]] else [])"
      by (simp add: scan_port_matched [OF op fpr ne d])
    then show ?thesis
      using paired_append [OF 1 paired_append [OF 2 3]] by simp
  next
    case False
    have "SnapshotPut x r \<notin> set (snd (scan_port cfg env ip p []))" for x r
      using False scan_port_events [of "SnapshotPut x r" cfg env ip p] by blast
    then show ?thesis by (rule a)
  qed
qed

lemma paired_port_loop: "paired (snd (port_loop cfg env ip ps []))"
proof (induction ps)
  case Nil
  show ?case by (simp add: paired_Nil)
next
  case (Cons p ps)
  show ?case
    using paired_append [OF paired_scan_port [of cfg env ip p] Cons.IH] paired_scan_port [of cfg env ip p]
    by (simp add: port_loop_Cons del: port_loop.simps)
qed

lemma paired_scan: "paired (snd (scan cfg env target []))"
proof -
  have "paired (if list_all (port_returns cfg env (target_ip target)) (target_ports cfg target)
           then [AddDone, RecordRunningState] else [])"
    by (rule paired_no_put) simp
  from paired_append [OF paired_port_loop [of cfg env "target_ip target" "target_ports cfg target"] this]
  show ?thesis
    by (simp only: scan_snd append_Nil)
qed

text \<open>
  Claim C10. A job is put on the snapshot pipeline only when snapshots are not disabled;
  it then carries the \<^verbatim>\<open>exploit\<close> of the PoC whose \<^verbatim>\<open>verify\<close> succeeded and the whole
  \<^verbatim>\<open>verify\<close> result, and the call right before it is the \<^verbatim>\<open>add_vulnerable\<close> of the same
  result cut to six fields.
\<close>

theorem snapshot_job_untruncated:
  assumes "SnapshotPut x results \<in> set (snd (scan cfg env target []))"
  shows "\<not> disable_snapshot cfg
     \<and> (\<exists>p\<in>set (target_ports cfg target). \<exists>product pocs. \<exists>c\<in>set pocs.
           fingerprint env (target_ip target) p cfg = Inr (Some product)
         \<and> poc_dict env product = Inr pocs
         \<and> x = exploit c
         \<and> verify c (target_ip target) p = Inr (Some results)
         \<and> results \<noteq> [])
     \<and> (\<exists>ys zs. snd (scan cfg env target [])
                 = ys @ AddVulnerable (take 6 results) # SnapshotPut x results # zs)"
proof -
  let ?ip = "target_ip target"
  from scan_events [OF assms] obtain p where p: "p \<in> set (target_ports cfg target)"
    and ev: "SnapshotPut x results \<in> set (snd (scan_port cfg env ?ip p []))" by auto
  from scan_port_events [OF ev] obtain product pocs c where
    fpr: "fingerprint env ?ip p cfg = Inr (Some product)"
    and d: "poc_dict env product = Inr pocs"
    and c: "c \<in> set pocs" and pc: "SnapshotPut x results \<in> set (poc_calls cfg ?ip p c)"
    by auto
  from poc_calls_events [OF pc] have
    v: "verify c ?ip p = Inr (Some results)" and ne: "results \<noteq> []"
    and en: "\<not> disable_snapshot cfg" and x: "x = exploit c" by auto
  from paired_scan [of cfg env target] assms
  have "\<exists>ys zs. snd (scan cfg env target [])
                 = ys @ AddVulnerable (take 6 results) # SnapshotPut x results # zs"
    unfolding paired_def by blast
  with p fpr d c v ne en x show ?thesis by blast
qed

text \<open>Claim C10 at the target \<^verbatim>\<open>10.0.0.1:80\<close>: the job has seven fields, the record six.\<close>

theorem snapshot_job_untruncated_witness:
  "SnapshotPut ''exploit_hit''
       [''10.0.0.1'', ''80'', ''camera-x-cve1'', ''admin'', ''12345'', ''rtsp'', ''weak-password'']
     \<in> set (snd (scan cfg_ex env_hits ''10.0.0.1:80'' []))
   \<and> \<not> disable_snapshot cfg_ex
   \<and> (\<exists>ys zs. snd (scan cfg_ex env_hits ''10.0.0.1:80'' [])
        = ys @ AddVulnerable (take 6
                 [''10.0.0.1'', ''80'', ''camera-x-cve1'', ''admin'', ''12345'', ''rtsp'',
                  ''weak-password''])
           # SnapshotPut ''exploit_hit''
               [''10.0.0.1'', ''80'', ''camera-x-cve1'', ''admin'', ''12345'', ''rtsp'',
                ''weak-password''] # zs)"
proof -
  have h: "SnapshotPut ''exploit_hit''
       [''10.0.0.1'', ''80'', ''camera-x-cve1'', ''admin'', ''12345'', ''rtsp'', ''weak-password'']
     \<in> set (snd (scan cfg_ex env_hits ''10.0.0.1:80'' []))"
    by code_simp
  from snapshot_job_untruncated [OF h] h show ?thesis by blast
qed

subsection \<open>The calls of a task, port by port\<close>

lemma reached_ports_Nil: "reached_ports cfg env ip [] = []"
  by (simp add: reached_ports_def)

lemma reached_ports_Cons:
  "reached_ports cfg env ip (p # ps) =
     p # (if port_returns cfg env ip p then reached_ports cfg env ip ps else [])"
  by (simp add: reached_ports_def)

lemma port_loop_reached:
  "snd (port_loop cfg env ip ps []) =
     concat (map (\<lambda>p. snd (scan_port cfg env ip p [])) (reached_ports cfg env ip ps))"
proof (induction ps)
  case Nil
  show ?case by (simp add: reached_ports_Nil)
next
  case (Cons p ps)
  show ?case
    using Cons.IH
    by (simp add: port_loop_Cons reached_ports_Cons del: port_loop.simps)
qed

lemma scan_trace:
  "snd (scan cfg env target []) =
     concat (map (\<lambda>p. snd (scan_port cfg env (target_ip target) p []))
                 (reached_ports cfg env (target_ip target) (target_ports cfg target)))
       @ (if list_all (port_returns cfg env (target_ip target)) (target_ports cfg target)
          then [AddDone, RecordRunningState] else [])"
  by (simp add: scan_snd port_loop_reached)

lemma filter_scan:
  assumes "\<not> f AddDone" and "\<not> f RecordRunningState"
  shows "filter f (snd (scan cfg env target [])) =
     concat (map (\<lambda>p. filter f (snd (scan_port cfg env (target_ip target) p [])))
                 (reached_ports cfg env (target_ip target) (target_ports cfg target)))"
  using assms by (simp add: scan_trace filter_concat comp_def)

lemma reached_mem:
  assumes "ps = pre @ p # post" and "list_all (port_returns cfg env ip) pre"
  shows "p \<in> set (reached_ports cfg env ip ps)"
  using assms
proof (induction pre arbitrary: ps)
  case Nil
  then show ?case by (simp add: reached_ports_Cons)
next
  case (Cons q pre)
  then show ?case by (simp add: reached_ports_Cons)
qed


lemma concat_map_if:
  "concat (map (\<lambda>c. if P c then [g c] else []) xs) = map g (filter P xs)"
  by (induction xs) simp_all

lemma concat_map_if2:
  "concat (map (\<lambda>c. if P c then g c else []) xs) = concat (map g (filter P xs))"
  by (induction xs) simp_all

lemma poc_calls_filter_found:
  "filter (\<lambda>ev. ev = AddFound) (poc_calls cfg ip p c) = (if succeeds ip p c then [AddFound] else [])"
  by (cases "verify c ip p")
     (auto simp: poc_calls_def succeeds_def split: option.splits)

lemma poc_calls_filter_vulnerable:
  "filter is_add_vulnerable (poc_calls cfg ip p c) =
     (if succeeds ip p c then [AddVulnerable (take 6 (result_of ip (p, c)))] else [])"
  by (cases "verify c ip p")
     (auto simp: poc_calls_def succeeds_def is_add_vulnerable_def result_of_def
           split: option.splits)

lemma poc_calls_filter_finding:
  "filter is_finding (poc_calls cfg ip p c) =
     (if succeeds ip p c then [AddFound, AddVulnerable (take 6 (result_of ip (p, c)))] else [])"
  by (cases "verify c ip p")
     (auto simp: poc_calls_def succeeds_def is_finding_def result_of_def
           split: option.splits)

lemma poc_calls_filter_not_vulnerable:
  "filter is_add_not_vulnerable (poc_calls cfg ip p c) = []"
  by (cases "verify c ip p")
     (auto simp: poc_calls_def is_add_not_vulnerable_def split: option.splits)

lemma poc_loop_fst_False:
  "(fst (poc_loop cfg ip p pocs False []) = Inr False)
     = list_all (\<lambda>c. \<not> isl (verify c ip p) \<and> \<not> succeeds ip p c) pocs"
proof (cases "list_all (\<lambda>c. \<not> isl (verify c ip p)) pocs")
  case True
  from poc_loop_fst [OF True, of cfg False "[]"] True show ?thesis
    by (auto simp: list_all_iff)
next
  case False
  from poc_loop_raises [OF False, of cfg False "[]"] False show ?thesis
    by (auto simp: list_all_iff)
qed

lemma poc_loop_fst_error:
  "fst (poc_loop cfg ip p pocs v tr) =
     (case first_raise ip p pocs of
        Some e \<Rightarrow> Inl e
      | None \<Rightarrow> Inr (v \<or> (\<exists>c\<in>set pocs. succeeds ip p c)))"
proof (induction pocs arbitrary: v tr)
  case Nil
  show ?case by (simp add: first_raise_def)
next
  case (Cons c cs)
  show ?case
  proof (cases "verify c ip p")
    case (Inl e)
    then show ?thesis by (simp add: first_raise_def)
  next
    case (Inr r)
    have fr: "first_raise ip p (c # cs) = first_raise ip p cs"
      using Inr by (simp add: first_raise_def)
    show ?thesis
    proof (cases r)
      case None
      with Inr Cons.IH [of v tr] fr show ?thesis
        by (simp add: succeeds_def split: option.splits)
    next
      case (Some res)
      with Inr Cons.IH [of v tr] Cons.IH [of True] fr
      show ?thesis by (cases "res = []") (simp_all add: succeeds_def split: option.splits)
    qed
  qed
qed

text \<open>A port is matched when it is open, fingerprinted, and the registry answers.\<close>

lemma unmatched_port:
  assumes "\<not> (\<exists>product pocs. port_scan env ip p (timeout cfg) = Inr True \<and>
        fingerprint env ip p cfg = Inr (Some product) \<and> product \<noteq> [] \<and>
        poc_dict env product = Inr pocs)"
  shows "\<forall>ev\<in>set (snd (scan_port cfg env ip p [])). \<exists>s. ev = LogInfo s"
    and "port_pocs cfg env ip p = []"
    and "not_vulnerable_calls cfg env ip p = []"
proof -
  show "\<forall>ev\<in>set (snd (scan_port cfg env ip p [])). \<exists>s. ev = LogInfo s"
    using assms scan_port_events [of _ cfg env ip p] by blast
  show "port_pocs cfg env ip p = []"
    using assms
    by (auto simp: port_pocs_def split: sum.splits bool.splits option.splits)
  show "not_vulnerable_calls cfg env ip p = []"
    using assms
    by (auto simp: not_vulnerable_calls_def clean_miss_def split: sum.splits option.splits)
qed

lemma filter_logs:
  assumes "\<forall>ev\<in>set xs. \<exists>s. ev = LogInfo s" and "\<And>s. \<not> f (LogInfo s)"
  shows "filter f xs = []"
  using assms by (induction xs) auto

lemma matched_port:
  assumes "port_scan env ip p (timeout cfg) = Inr True"
    and "fingerprint env ip p cfg = Inr (Some product)"
    and "product \<noteq> []"
    and "poc_dict env product = Inr pocs"
  shows "snd (scan_port cfg env ip p []) =
       [LogInfo (ip @ '' port '' @ str_port p @ '' is open''),
        LogInfo (ip @ '':'' @ str_port p @ '' is '' @ product)]
         @ concat (map (poc_calls cfg ip p) (takeWhile (\<lambda>c. \<not> isl (verify c ip p)) pocs))
         @ not_vulnerable_calls cfg env ip p"
    and "port_pocs cfg env ip p = pocs"
    and "not_vulnerable_calls cfg env ip p =
           (if list_all (\<lambda>c. \<not> isl (verify c ip p) \<and> \<not> succeeds ip p c) pocs
            then [AddNotVulnerable [ip, str_port p, product]] else [])"
proof -
  show nv: "not_vulnerable_calls cfg env ip p =
           (if list_all (\<lambda>c. \<not> isl (verify c ip p) \<and> \<not> succeeds ip p c) pocs
            then [AddNotVulnerable [ip, str_port p, product]] else [])"
    using assms by (simp add: not_vulnerable_calls_def clean_miss_def)
  show "port_pocs cfg env ip p = pocs"
    using assms by (simp add: port_pocs_def)
  show "snd (scan_port cfg env ip p []) =
       [LogInfo (ip @ '' port '' @ str_port p @ '' is open''),
        LogInfo (ip @ '':'' @ str_port p @ '' is '' @ product)]
         @ concat (map (poc_calls cfg ip p) (takeWhile (\<lambda>c. \<not> isl (verify c ip p)) pocs))
         @ not_vulnerable_calls cfg env ip p"
    by (simp add: scan_port_matched [OF assms] nv poc_loop_fst_False)
qed


lemma port_cases:
  obtains (matched) product pocs where "port_scan env ip p (timeout cfg) = Inr True"
      and "fingerprint env ip p cfg = Inr (Some product)" and "product \<noteq> []"
      and "poc_dict env product = Inr pocs"
    | (unmatched) "\<not> (\<exists>product pocs. port_scan env ip p (timeout cfg) = Inr True \<and>
        fingerprint env ip p cfg = Inr (Some product) \<and> product \<noteq> [] \<and>
        poc_dict env product = Inr pocs)"
  by blast

lemma port_found:
  "filter (\<lambda>ev. ev = AddFound) (snd (scan_port cfg env ip p []))
     = map (\<lambda>c. AddFound) (verified_pocs cfg env ip p)"
proof (cases rule: port_cases [of env ip p cfg])
  case (matched product pocs)
  have nv: "filter (\<lambda>ev. ev = AddFound) (not_vulnerable_calls cfg env ip p) = []"
    by (simp add: matched_port(3) [OF matched])
  show ?thesis
    by (simp add: matched_port(1,2) [OF matched] nv verified_pocs_def filter_concat comp_def
                  poc_calls_filter_found concat_map_if)
next
  case unmatched
  from filter_logs [OF unmatched_port(1) [OF unmatched], of "\<lambda>ev. ev = AddFound"]
  show ?thesis by (simp add: verified_pocs_def unmatched_port(2) [OF unmatched])
qed

lemma port_vulnerable:
  "filter is_add_vulnerable (snd (scan_port cfg env ip p []))
     = map (\<lambda>c. AddVulnerable (take 6 (result_of ip (p, c)))) (verified_pocs cfg env ip p)"
proof (cases rule: port_cases [of env ip p cfg])
  case (matched product pocs)
  have nv: "filter is_add_vulnerable (not_vulnerable_calls cfg env ip p) = []"
    by (simp add: matched_port(3) [OF matched] is_add_vulnerable_def)
  show ?thesis
    by (simp add: matched_port(1,2) [OF matched] nv verified_pocs_def filter_concat comp_def
                  poc_calls_filter_vulnerable concat_map_if is_add_vulnerable_def)
next
  case unmatched
  from filter_logs [OF unmatched_port(1) [OF unmatched], of is_add_vulnerable]
  show ?thesis
    by (simp add: verified_pocs_def unmatched_port(2) [OF unmatched] is_add_vulnerable_def)
qed

lemma port_finding:
  "filter is_finding (snd (scan_port cfg env ip p []))
     = concat (map (\<lambda>c. [AddFound, AddVulnerable (take 6 (result_of ip (p, c)))])
                   (verified_pocs cfg env ip p))"
proof (cases rule: port_cases [of env ip p cfg])
  case (matched product pocs)
  have nv: "filter is_finding (not_vulnerable_calls cfg env ip p) = []"
    by (simp add: matched_port(3) [OF matched] is_finding_def)
  show ?thesis
    by (simp add: matched_port(1,2) [OF matched] nv verified_pocs_def filter_concat comp_def
                  poc_calls_filter_finding concat_map_if2 is_finding_def)
next
  case unmatched
  from filter_logs [OF unmatched_port(1) [OF unmatched], of is_finding]
  show ?thesis
    by (simp add: verified_pocs_def unmatched_port(2) [OF unmatched] is_finding_def)
qed

lemma port_not_vulnerable:
  "filter is_add_not_vulnerable (snd (scan_port cfg env ip p []))
     = not_vulnerable_calls cfg env ip p"
proof (cases rule: port_cases [of env ip p cfg])
  case (matched product pocs)
  have nv: "filter is_add_not_vulnerable (not_vulnerable_calls cfg env ip p)
              = not_vulnerable_calls cfg env ip p"
    by (simp add: matched_port(3) [OF matched] is_add_not_vulnerable_def)
  have pc: "filter is_add_not_vulnerable (concat (map (poc_calls cfg ip p) cs)) = []" for cs
    by (induction cs) (simp_all add: poc_calls_filter_not_vulnerable)
  show ?thesis
    by (simp add: matched_port(1) [OF matched] nv pc is_add_not_vulnerable_def)
next
  case unmatched
  from filter_logs [OF unmatched_port(1) [OF unmatched], of is_add_not_vulnerable]
  show ?thesis
    by (simp add: unmatched_port(3) [OF unmatched] is_add_not_vulnerable_def)
qed

lemma port_error_fst:
  "fst (scan_port cfg env ip p tr) =
     (case port_error cfg env ip p of None \<Rightarrow> Inr () | Some e \<Rightarrow> Inl e)"
proof (cases "port_scan env ip p (timeout cfg)")
  case (Inl e)
  then show ?thesis by (simp add: scan_port_def port_error_def)
next
  case (Inr opened)
  show ?thesis
  proof (cases opened)
    case False
    with Inr show ?thesis by (simp add: scan_port_def port_error_def)
  next
    case True
    with Inr have op: "port_scan env ip p (timeout cfg) = Inr True" by simp
    show ?thesis
    proof (cases "fingerprint env ip p cfg")
      case (Inl e)
      with op show ?thesis by (simp add: scan_port_def port_error_def)
    next
      case (Inr fp)
      show ?thesis
      proof (cases fp)
        case None
        with op Inr show ?thesis by (simp add: scan_port_def port_error_def)
      next
        case (Some product)
        with Inr have fpr: "fingerprint env ip p cfg = Inr (Some product)" by simp
        show ?thesis
        proof (cases "product = []")
          case True
          with op fpr show ?thesis by (simp add: scan_port_def port_error_def)
        next
          case False
          show ?thesis
          proof (cases "poc_dict env product")
            case (Inl e)
            with op fpr False show ?thesis by (simp add: scan_port_def port_error_def)
          next
            case (Inr pocs)
            have pe: "port_error cfg env ip p = first_raise ip p pocs"
              using op fpr False Inr by (simp add: port_error_def)
            show ?thesis
              by (simp add: scan_port_matched [OF op fpr False Inr] pe
                            poc_loop_fst_error [of cfg ip p pocs False "[]"]
                       split: option.splits)
          qed
        qed
      qed
    qed
  qed
qed

lemma port_returns_error:
  "port_returns cfg env ip p = (port_error cfg env ip p = None)"
  using scan_port_returns [of cfg env ip p "[]"] port_error_fst [of cfg env ip p "[]"]
  by (auto split: option.splits)


subsection \<open>Errors of the collaborators\<close>

lemma port_loop_stops_error:
  assumes "list_all (port_returns cfg env ip) pre" and "port_error cfg env ip p = Some e"
  shows "port_loop cfg env ip (pre @ p # post) tr =
           (Inl e, tr @ snd (port_loop cfg env ip (pre @ [p]) []))"
proof -
  have nr: "\<not> port_returns cfg env ip p"
    using assms(2) by (simp add: port_returns_error)
  from port_loop_stops [OF assms(1) nr, of post tr] obtain e' where
    pl: "port_loop cfg env ip (pre @ p # post) tr =
           (Inl e', tr @ snd (port_loop cfg env ip (pre @ [p]) []))" by blast
  have pre: "fst (port_loop cfg env ip pre tr) = Inr ()"
    using assms(1) by (simp add: port_loop_returns)
  have sp: "fst (scan_port cfg env ip p tr') = Inl e" for tr'
    using assms(2) by (simp add: port_error_fst)
  have "fst (port_loop cfg env ip (p # post) tr') = Inl e" for tr'
  proof -
    obtain r b where eq: "scan_port cfg env ip p tr' = (r, b)"
      by (cases "scan_port cfg env ip p tr'")
    with sp [of tr'] have "r = Inl e" by simp
    with eq show ?thesis by simp
  qed
  then have "fst (port_loop cfg env ip (pre @ p # post) tr) = Inl e"
    using port_loop_append [OF pre, of "p # post"] by simp
  with pl show ?thesis by simp
qed

text \<open>
  Claim C1, as amended. The claim says that an error raised by the port probe, the
  fingerprint or a PoC \<^verbatim>\<open>verify\<close> call is caught per port, that the remaining ports are
  still processed and that \<^verbatim>\<open>_scan\<close> never propagates an exception. \<^verbatim>\<open>_scan\<close> has no
  handler, so this is what holds instead. The scan task returns normally exactly when no
  probe, fingerprint, registry lookup or \<^verbatim>\<open>verify\<close> call of any of its ports raises. When
  the calls of the ports \<open>pre\<close> return and a call of the next port \<open>p\<close> raises the error
  \<open>e\<close>, this very error \<open>e\<close> leaves \<^verbatim>\<open>_scan\<close>, the calls made are those of \<open>pre\<close> and \<open>p\<close>
  only (the ports after \<open>p\<close> are not processed), and neither \<^verbatim>\<open>add_done\<close> nor
  \<^verbatim>\<open>record_running_state\<close> is called.
\<close>

theorem scan_error_propagates:
  "((fst (scan cfg env target tr) = Inr ())
      = list_all (port_returns cfg env (target_ip target)) (target_ports cfg target))
   \<and> port_returns cfg env (target_ip target) p
       = (port_error cfg env (target_ip target) p = None)
   \<and> (target_ports cfg target = pre @ p # post
        \<and> list_all (port_returns cfg env (target_ip target)) pre
        \<and> port_error cfg env (target_ip target) p = Some e
      \<longrightarrow> scan cfg env target tr =
             (Inl e, tr @ snd (port_loop cfg env (target_ip target) (pre @ [p]) []))
          \<and> AddDone \<notin> set (snd (scan cfg env target []))
          \<and> RecordRunningState \<notin> set (snd (scan cfg env target [])))"
proof (intro conjI impI)
  show "(fst (scan cfg env target tr) = Inr ())
      = list_all (port_returns cfg env (target_ip target)) (target_ports cfg target)"
    by (rule scan_fst)
next
  show "port_returns cfg env (target_ip target) p
       = (port_error cfg env (target_ip target) p = None)"
    by (rule port_returns_error)
next
  assume h: "target_ports cfg target = pre @ p # post
        \<and> list_all (port_returns cfg env (target_ip target)) pre
        \<and> port_error cfg env (target_ip target) p = Some e"
  then have "port_loop cfg env (target_ip target) (target_ports cfg target) tr =
       (Inl e, tr @ snd (port_loop cfg env (target_ip target) (pre @ [p]) []))"
    using port_loop_stops_error [of cfg env "target_ip target" pre p e post tr] by simp
  then show "scan cfg env target tr =
                 (Inl e, tr @ snd (port_loop cfg env (target_ip target) (pre @ [p]) []))"
    by (simp add: scan_def)
next
  assume h: "target_ports cfg target = pre @ p # post
        \<and> list_all (port_returns cfg env (target_ip target)) pre
        \<and> port_error cfg env (target_ip target) p = Some e"
  then have nr: "\<not> list_all (port_returns cfg env (target_ip target)) (target_ports cfg target)"
    by (simp add: port_returns_error)
  show "AddDone \<notin> set (snd (scan cfg env target []))"
    using nr port_loop_no_done(1) [of cfg env "target_ip target" "target_ports cfg target"]
    by (simp add: scan_snd)
  show "RecordRunningState \<notin> set (snd (scan cfg env target []))"
    using nr port_loop_no_done(2) [of cfg env "target_ip target" "target_ports cfg target"]
    by (simp add: scan_snd)
qed

text \<open>The amended claim C1 at a target with two ports whose first PoC raises on port 22:
  the error of the PoC is the result, after the two log lines of port 22.\<close>

theorem scan_error_propagates_witness:
  "target_ports cfg_ex ''10.0.0.1'' = [] @ PortNum 22 # [PortNum 80]
   \<and> list_all (port_returns cfg_ex env_raise (target_ip ''10.0.0.1'')) []
   \<and> port_error cfg_ex env_raise (target_ip ''10.0.0.1'') (PortNum 22)
        = Some (Exception ''connection reset'')
   \<and> scan cfg_ex env_raise ''10.0.0.1'' [] =
        (Inl (Exception ''connection reset''),
         [] @ snd (port_loop cfg_ex env_raise (target_ip ''10.0.0.1'') ([] @ [PortNum 22]) []))
   \<and> snd (scan cfg_ex env_raise ''10.0.0.1'' [])
        = [LogInfo ''10.0.0.1 port 22 is open'', LogInfo ''10.0.0.1:22 is camera-x'']
   \<and> AddDone \<notin> set (snd (scan cfg_ex env_raise ''10.0.0.1'' []))
   \<and> RecordRunningState \<notin> set (snd (scan cfg_ex env_raise ''10.0.0.1'' []))"
proof -
  have t: "snd (port_loop cfg_ex env_raise (target_ip ''10.0.0.1'') ([] @ [PortNum 22]) [])
        = [LogInfo ''10.0.0.1 port 22 is open'', LogInfo ''10.0.0.1:22 is camera-x'']"
    by code_simp
  have h: "target_ports cfg_ex ''10.0.0.1'' = [] @ PortNum 22 # [PortNum 80]
   \<and> list_all (port_returns cfg_ex env_raise (target_ip ''10.0.0.1'')) []
   \<and> port_error cfg_ex env_raise (target_ip ''10.0.0.1'') (PortNum 22)
        = Some (Exception ''connection reset'')"
    by code_simp
  from h t scan_error_propagates [of cfg_ex env_raise "''10.0.0.1''" "[]" "PortNum 22" "[]"
                                     "[PortNum 80]" "Exception ''connection reset''"]
  show ?thesis by simp
qed

text \<open>
  Claim C1 as stated fails: with every port open and a PoC that raises, the error of
  \<^verbatim>\<open>verify\<close> on port 22 is the result of \<^verbatim>\<open>_scan\<close>, port 80 is never probed and
  \<^verbatim>\<open>add_done\<close> is not called.
\<close>

theorem scan_swallows_counterexample:
  "scan cfg_ex env_raise ''10.0.0.1'' [] =
     (Inl (Exception ''connection reset''),
      [LogInfo ''10.0.0.1 port 22 is open'', LogInfo ''10.0.0.1:22 is camera-x''])"
  by code_simp


subsection \<open>Findings\<close>

lemma concat_map_concat:
  "concat (map f (concat xss)) = concat (map (\<lambda>xs. concat (map f xs)) xss)"
  by (induction xss) simp_all

lemma scan_vulnerable:
  "filter is_add_vulnerable (snd (scan cfg env target []))
     = map (\<lambda>v. AddVulnerable (take 6 (result_of (target_ip target) v)))
           (verifications cfg env target)"
proof -
  have "filter is_add_vulnerable (snd (scan cfg env target [])) =
     concat (map (\<lambda>p. filter is_add_vulnerable (snd (scan_port cfg env (target_ip target) p [])))
                 (reached_ports cfg env (target_ip target) (target_ports cfg target)))"
    by (rule filter_scan) (simp_all add: is_add_vulnerable_def)
  then show ?thesis
    by (simp add: port_vulnerable verifications_def map_concat comp_def)
qed

lemma scan_found:
  "filter (\<lambda>ev. ev = AddFound) (snd (scan cfg env target []))
     = map (\<lambda>v. AddFound) (verifications cfg env target)"
proof -
  have "filter (\<lambda>ev. ev = AddFound) (snd (scan cfg env target [])) =
     concat (map (\<lambda>p. filter (\<lambda>ev. ev = AddFound) (snd (scan_port cfg env (target_ip target) p [])))
                 (reached_ports cfg env (target_ip target) (target_ports cfg target)))"
    by (rule filter_scan) simp_all
  then show ?thesis
    by (simp add: port_found verifications_def map_concat comp_def)
qed

lemma scan_finding:
  "filter is_finding (snd (scan cfg env target []))
     = concat (map (\<lambda>v. [AddFound, AddVulnerable (take 6 (result_of (target_ip target) v))])
                   (verifications cfg env target))"
proof -
  have "filter is_finding (snd (scan cfg env target [])) =
     concat (map (\<lambda>p. filter is_finding (snd (scan_port cfg env (target_ip target) p [])))
                 (reached_ports cfg env (target_ip target) (target_ports cfg target)))"
    by (rule filter_scan) (simp_all add: is_finding_def)
  also have "\<dots> = concat (map (\<lambda>p. concat (map (\<lambda>v. [AddFound, AddVulnerable (take 6 (result_of (target_ip target) v))])
                        (map (Pair p) (verified_pocs cfg env (target_ip target) p))))
                 (reached_ports cfg env (target_ip target) (target_ports cfg target)))"
    by (simp add: port_finding comp_def)
  also have "\<dots> = concat (map (\<lambda>v. [AddFound, AddVulnerable (take 6 (result_of (target_ip target) v))])
                   (verifications cfg env target))"
    by (simp add: verifications_def concat_map_concat comp_def)
  finally show ?thesis .
qed

lemma scan_not_vulnerable:
  "filter is_add_not_vulnerable (snd (scan cfg env target []))
     = concat (map (not_vulnerable_calls cfg env (target_ip target))
                   (reached_ports cfg env (target_ip target) (target_ports cfg target)))"
proof -
  have "filter is_add_not_vulnerable (snd (scan cfg env target [])) =
     concat (map (\<lambda>p. filter is_add_not_vulnerable (snd (scan_port cfg env (target_ip target) p [])))
                 (reached_ports cfg env (target_ip target) (target_ports cfg target)))"
    by (rule filter_scan) (simp_all add: is_add_not_vulnerable_def)
  then show ?thesis
    by (simp add: port_not_vulnerable)
qed

lemma verifications_mem:
  "v \<in> set (verifications cfg env target) \<Longrightarrow>
     verify (snd v) (target_ip target) (fst v) = Inr (Some (result_of (target_ip target) v))
     \<and> result_of (target_ip target) v \<noteq> []"
  by (cases "verify (snd v) (target_ip target) (fst v)")
     (auto simp: verifications_def verified_pocs_def succeeds_def result_of_def
           split: option.splits)

lemma verification_made:
  assumes "target_ports cfg target = pre @ p # post"
    and "list_all (port_returns cfg env (target_ip target)) pre"
    and "port_scan env (target_ip target) p (timeout cfg) = Inr True"
    and "fingerprint env (target_ip target) p cfg = Inr (Some product)"
    and "product \<noteq> []"
    and "poc_dict env product = Inr (cs @ c # cs')"
    and "list_all (\<lambda>c. \<not> isl (verify c (target_ip target) p)) cs"
    and "verify c (target_ip target) p = Inr (Some results)"
    and "results \<noteq> []"
  shows "(p, c) \<in> set (verifications cfg env target)"
    and "result_of (target_ip target) (p, c) = results"
proof -
  let ?ip = "target_ip target"
  have r: "p \<in> set (reached_ports cfg env ?ip (target_ports cfg target))"
    using assms(1,2) by (rule reached_mem)
  have pp: "port_pocs cfg env ?ip p = cs @ c # cs'"
    using assms(3-6) by (simp add: port_pocs_def)
  have "takeWhile (\<lambda>c. \<not> isl (verify c ?ip p)) (cs @ c # cs')
          = cs @ c # takeWhile (\<lambda>c. \<not> isl (verify c ?ip p)) cs'"
    using assms(7,8) by (simp add: takeWhile_append2 list_all_iff)
  moreover have "succeeds ?ip p c" using assms(8,9) by (simp add: succeeds_def)
  ultimately have "c \<in> set (verified_pocs cfg env ?ip p)"
    by (simp add: verified_pocs_def pp)
  with r show "(p, c) \<in> set (verifications cfg env target)"
    by (auto simp: verifications_def)
  show "result_of ?ip (p, c) = results"
    using assms(8) by (simp add: result_of_def)
qed


text \<open>
  Claim C3. The records a scan task passes to \<^verbatim>\<open>add_vulnerable\<close> are, one for one and in
  order, the results of its successful verifications, each cut to its first six fields.
  Every such result is what \<^verbatim>\<open>verify\<close> returned and is not empty; the record has at most
  six fields, and exactly six whenever the result has at least seven. In the two
  directions, spelled out: a \<^verbatim>\<open>verify\<close> call that is made (its port is reached, open and
  fingerprinted, the PoCs before it returned) and succeeds has its result, cut to six
  fields, passed to \<^verbatim>\<open>add_vulnerable\<close>; and every record passed comes from such a call.
\<close>

theorem add_vulnerable_truncated:
  "filter is_add_vulnerable (snd (scan cfg env target []))
     = map (\<lambda>v. AddVulnerable (take 6 (result_of (target_ip target) v)))
           (verifications cfg env target)
   \<and> (\<forall>v\<in>set (verifications cfg env target).
         verify (snd v) (target_ip target) (fst v) = Inr (Some (result_of (target_ip target) v))
       \<and> result_of (target_ip target) v \<noteq> []
       \<and> length (take 6 (result_of (target_ip target) v)) \<le> 6
       \<and> (7 \<le> length (result_of (target_ip target) v)
            \<longrightarrow> length (take 6 (result_of (target_ip target) v)) = 6))
   \<and> (target_ports cfg target = pre @ p # post
        \<and> list_all (port_returns cfg env (target_ip target)) pre
        \<and> port_scan env (target_ip target) p (timeout cfg) = Inr True
        \<and> fingerprint env (target_ip target) p cfg = Inr (Some product)
        \<and> product \<noteq> []
        \<and> poc_dict env product = Inr (cs @ c # cs')
        \<and> list_all (\<lambda>c. \<not> isl (verify c (target_ip target) p)) cs
        \<and> verify c (target_ip target) p = Inr (Some results)
        \<and> results \<noteq> []
      \<longrightarrow> (p, c) \<in> set (verifications cfg env target)
          \<and> AddVulnerable (take 6 results) \<in> set (snd (scan cfg env target [])))
   \<and> (AddVulnerable r \<in> set (snd (scan cfg env target []))
      \<longrightarrow> (\<exists>p\<in>set (target_ports cfg target). \<exists>product pocs. \<exists>c\<in>set pocs. \<exists>results.
             port_scan env (target_ip target) p (timeout cfg) = Inr True
           \<and> fingerprint env (target_ip target) p cfg = Inr (Some product)
           \<and> poc_dict env product = Inr pocs
           \<and> verify c (target_ip target) p = Inr (Some results)
           \<and> results \<noteq> []
           \<and> r = take 6 results
           \<and> length r \<le> 6
           \<and> (7 \<le> length results \<longrightarrow> length r = 6)))"
proof (intro conjI ballI impI)
  let ?ip = "target_ip target"
  show "filter is_add_vulnerable (snd (scan cfg env target []))
     = map (\<lambda>v. AddVulnerable (take 6 (result_of ?ip v))) (verifications cfg env target)"
    by (rule scan_vulnerable)
  {
    fix v assume v: "v \<in> set (verifications cfg env target)"
    from verifications_mem [OF v]
    show "verify (snd v) ?ip (fst v) = Inr (Some (result_of ?ip v))"
      and "result_of ?ip v \<noteq> []" by simp_all
    show "length (take 6 (result_of ?ip v)) \<le> 6" by simp
    assume "7 \<le> length (result_of ?ip v)"
    then show "length (take 6 (result_of ?ip v)) = 6" by simp
  }
  {
    assume h: "target_ports cfg target = pre @ p # post
        \<and> list_all (port_returns cfg env ?ip) pre
        \<and> port_scan env ?ip p (timeout cfg) = Inr True
        \<and> fingerprint env ?ip p cfg = Inr (Some product)
        \<and> product \<noteq> []
        \<and> poc_dict env product = Inr (cs @ c # cs')
        \<and> list_all (\<lambda>c. \<not> isl (verify c ?ip p)) cs
        \<and> verify c ?ip p = Inr (Some results)
        \<and> results \<noteq> []"
    then have m: "(p, c) \<in> set (verifications cfg env target)"
      and ro: "result_of ?ip (p, c) = results"
      using verification_made [of cfg target pre p post env product cs c cs' results]
      by simp_all
    show "(p, c) \<in> set (verifications cfg env target)" by (rule m)
    from m have "AddVulnerable (take 6 (result_of ?ip (p, c)))
        \<in> set (map (\<lambda>v. AddVulnerable (take 6 (result_of ?ip v))) (verifications cfg env target))"
      by (simp only: set_map) (rule imageI)
    then have "AddVulnerable (take 6 results)
        \<in> set (filter is_add_vulnerable (snd (scan cfg env target [])))"
      by (simp only: scan_vulnerable ro)
    then show "AddVulnerable (take 6 results) \<in> set (snd (scan cfg env target []))"
      by simp
  }
  {
    assume a: "AddVulnerable r \<in> set (snd (scan cfg env target []))"
    from scan_events [OF a] obtain p where p: "p \<in> set (target_ports cfg target)"
      and ev: "AddVulnerable r \<in> set (snd (scan_port cfg env ?ip p []))" by auto
    from scan_port_events [OF ev] obtain product pocs c where
      op: "port_scan env ?ip p (timeout cfg) = Inr True"
      and fpr: "fingerprint env ?ip p cfg = Inr (Some product)"
      and d: "poc_dict env product = Inr pocs"
      and c: "c \<in> set pocs" and pc: "AddVulnerable r \<in> set (poc_calls cfg ?ip p c)"
      by auto
    from poc_calls_events [OF pc] obtain results where
      v: "verify c ?ip p = Inr (Some results)" and ne: "results \<noteq> []"
      and r: "r = take 6 results" by auto
    from r have "length r \<le> 6" and "7 \<le> length results \<longrightarrow> length r = 6" by simp_all
    with p op fpr d c v ne r
    show "\<exists>p\<in>set (target_ports cfg target). \<exists>product pocs. \<exists>c\<in>set pocs. \<exists>results.
             port_scan env ?ip p (timeout cfg) = Inr True
           \<and> fingerprint env ?ip p cfg = Inr (Some product)
           \<and> poc_dict env product = Inr pocs
           \<and> verify c ?ip p = Inr (Some results)
           \<and> results \<noteq> []
           \<and> r = take 6 results
           \<and> length r \<le> 6
           \<and> (7 \<le> length results \<longrightarrow> length r = 6)" by blast
  }
qed


text \<open>Claim C3 at the target \<^verbatim>\<open>10.0.0.1:80\<close> whose product has the PoCs hit, miss, hit,
  each hit reporting seven fields: two records of six fields, the second for the PoC
  after the miss.\<close>

theorem add_vulnerable_truncated_witness:
  "target_ports cfg_ex ''10.0.0.1:80'' = [] @ PortStr ''80'' # []
   \<and> poc_dict env_hits ''camera-x'' = Inr ([poc_hit, poc_miss] @ poc_hit # [])
   \<and> verify poc_hit (target_ip ''10.0.0.1:80'') (PortStr ''80'')
        = Inr (Some [''10.0.0.1'', ''80'', ''camera-x-cve1'', ''admin'', ''12345'', ''rtsp'',
                     ''weak-password''])
   \<and> AddVulnerable (take 6 [''10.0.0.1'', ''80'', ''camera-x-cve1'', ''admin'', ''12345'',
                            ''rtsp'', ''weak-password''])
        \<in> set (snd (scan cfg_ex env_hits ''10.0.0.1:80'' []))
   \<and> filter is_add_vulnerable (snd (scan cfg_ex env_hits ''10.0.0.1:80'' []))
        = [AddVulnerable [''10.0.0.1'', ''80'', ''camera-x-cve1'', ''admin'', ''12345'', ''rtsp''],
           AddVulnerable [''10.0.0.1'', ''80'', ''camera-x-cve1'', ''admin'', ''12345'', ''rtsp'']]
   \<and> length (verifications cfg_ex env_hits ''10.0.0.1:80'') = 2"
proof -
  let ?res = "[''10.0.0.1'', ''80'', ''camera-x-cve1'', ''admin'', ''12345'', ''rtsp'',
               ''weak-password'']"
  have ip: "target_ip ''10.0.0.1:80'' = ''10.0.0.1''" by code_simp
  have h1: "target_ports cfg_ex ''10.0.0.1:80'' = [] @ PortStr ''80'' # []" by code_simp
  have h2: "list_all (port_returns cfg_ex env_hits (target_ip ''10.0.0.1:80'')) []" by simp
  have h3: "port_scan env_hits (target_ip ''10.0.0.1:80'') (PortStr ''80'') (timeout cfg_ex)
              = Inr True"
    by (simp add: env_hits_def)
  have h4: "fingerprint env_hits (target_ip ''10.0.0.1:80'') (PortStr ''80'') cfg_ex
              = Inr (Some ''camera-x'')"
    by (simp add: env_hits_def)
  have h5: "''camera-x'' \<noteq> []" by simp
  have h6: "poc_dict env_hits ''camera-x'' = Inr ([poc_hit, poc_miss] @ poc_hit # [])"
    by (simp add: env_hits_def)
  have h7: "list_all (\<lambda>c. \<not> isl (verify c (target_ip ''10.0.0.1:80'') (PortStr ''80'')))
              [poc_hit, poc_miss]"
    by (simp add: poc_hit_def poc_miss_def)
  have h8: "verify poc_hit (target_ip ''10.0.0.1:80'') (PortStr ''80'') = Inr (Some ?res)"
    by (simp add: poc_hit_def ip)
  have h9: "?res \<noteq> []" by simp
  have v: "map (\<lambda>v. AddVulnerable (take 6 (result_of (target_ip ''10.0.0.1:80'') v)))
               (verifications cfg_ex env_hits ''10.0.0.1:80'')
        = [AddVulnerable [''10.0.0.1'', ''80'', ''camera-x-cve1'', ''admin'', ''12345'', ''rtsp''],
           AddVulnerable [''10.0.0.1'', ''80'', ''camera-x-cve1'', ''admin'', ''12345'', ''rtsp'']
             :: string call]"
    by code_simp
  have l: "length (verifications cfg_ex env_hits ''10.0.0.1:80'') = 2" by code_simp
  from add_vulnerable_truncated
         [of cfg_ex env_hits "''10.0.0.1:80''" "[]" "PortStr ''80''" "[]" "''camera-x''"
             "[poc_hit, poc_miss]" poc_hit "[]" ?res]
       h1 h2 h3 h4 h5 h6 h7 h8 h9 v l
  show ?thesis by simp
qed

subsection \<open>Every PoC in turn\<close>

text \<open>
  Claim C4, as amended. The claim says that every PoC of the list is tried and that \<open>k\<close>
  successful PoCs give \<open>k\<close> increments and \<open>k\<close> records. A \<^verbatim>\<open>verify\<close> call that raises ends
  the loop (and the task, see C1), so this is what holds instead. On a fingerprinted
  port the PoCs are tried in the order of the registry's list, also after a check has
  succeeded, until the list ends or a \<^verbatim>\<open>verify\<close> call raises (none is tried when the
  registry lookup itself raises). Each successful \<^verbatim>\<open>verify\<close>
  call brings its own \<^verbatim>\<open>add_found\<close> followed by its own \<^verbatim>\<open>add_vulnerable\<close>: the findings
  of a task are these two calls for each successful verification in turn, so \<open>k\<close>
  successful calls give \<open>k\<close> increments and \<open>k\<close> records. When no \<^verbatim>\<open>verify\<close> call of the
  port raises, the successful verifications are those of all the successful PoCs of the
  list; and a PoC that succeeds after PoCs that returned, successful or not, is counted.
\<close>

theorem every_poc_checked:
  "filter is_finding (snd (scan cfg env target []))
     = concat (map (\<lambda>v. [AddFound, AddVulnerable (take 6 (result_of (target_ip target) v))])
                   (verifications cfg env target))
   \<and> length (filter (\<lambda>ev. ev = AddFound) (snd (scan cfg env target [])))
       = length (verifications cfg env target)
   \<and> length (filter is_add_vulnerable (snd (scan cfg env target [])))
       = length (verifications cfg env target)
   \<and> (list_all (\<lambda>c. \<not> isl (verify c ip p)) (port_pocs cfg env ip p)
      \<longrightarrow> verified_pocs cfg env ip p = filter (succeeds ip p) (port_pocs cfg env ip p))
   \<and> (target_ports cfg target = pre @ q # post
        \<and> list_all (port_returns cfg env (target_ip target)) pre
        \<and> port_scan env (target_ip target) q (timeout cfg) = Inr True
        \<and> fingerprint env (target_ip target) q cfg = Inr (Some product)
        \<and> product \<noteq> []
        \<and> poc_dict env product = Inr (cs @ c # cs')
        \<and> list_all (\<lambda>c. \<not> isl (verify c (target_ip target) q)) cs
        \<and> verify c (target_ip target) q = Inr (Some results)
        \<and> results \<noteq> []
      \<longrightarrow> (q, c) \<in> set (verifications cfg env target))"
proof (intro conjI impI)
  show "filter is_finding (snd (scan cfg env target []))
     = concat (map (\<lambda>v. [AddFound, AddVulnerable (take 6 (result_of (target_ip target) v))])
                   (verifications cfg env target))"
    by (rule scan_finding)
  show "length (filter (\<lambda>ev. ev = AddFound) (snd (scan cfg env target [])))
       = length (verifications cfg env target)"
    by (simp add: scan_found)
  show "length (filter is_add_vulnerable (snd (scan cfg env target [])))
       = length (verifications cfg env target)"
    by (simp add: scan_vulnerable)
  {
    assume "list_all (\<lambda>c. \<not> isl (verify c ip p)) (port_pocs cfg env ip p)"
    then have "takeWhile (\<lambda>c. \<not> isl (verify c ip p)) (port_pocs cfg env ip p)
                 = port_pocs cfg env ip p"
      by (simp add: list_all_iff)
    then show "verified_pocs cfg env ip p = filter (succeeds ip p) (port_pocs cfg env ip p)"
      by (simp only: verified_pocs_def)
  }
  {
    assume "target_ports cfg target = pre @ q # post
        \<and> list_all (port_returns cfg env (target_ip target)) pre
        \<and> port_scan env (target_ip target) q (timeout cfg) = Inr True
        \<and> fingerprint env (target_ip target) q cfg = Inr (Some product)
        \<and> product \<noteq> []
        \<and> poc_dict env product = Inr (cs @ c # cs')
        \<and> list_all (\<lambda>c. \<not> isl (verify c (target_ip target) q)) cs
        \<and> verify c (target_ip target) q = Inr (Some results)
        \<and> results \<noteq> []"
    then show "(q, c) \<in> set (verifications cfg env target)"
      using verification_made(1) [of cfg target pre q post env product cs c cs' results]
      by simp
  }
qed

text \<open>The amended claim C4 at a port whose product has the PoCs hit, miss, hit (two
  findings), and at one with hit, raise, hit (one).\<close>

theorem every_poc_checked_witness:
  "list_all (\<lambda>c. \<not> isl (verify c ''10.0.0.1'' (PortStr ''80'')))
      (port_pocs cfg_ex env_hits ''10.0.0.1'' (PortStr ''80''))
   \<and> map exploit (verified_pocs cfg_ex env_hits ''10.0.0.1'' (PortStr ''80''))
        = [''exploit_hit'', ''exploit_hit'']
   \<and> length (filter (\<lambda>ev. ev = AddFound) (snd (scan cfg_ex env_hits ''10.0.0.1:80'' []))) = 2
   \<and> length (filter is_add_vulnerable (snd (scan cfg_ex env_hits ''10.0.0.1:80'' []))) = 2
   \<and> length (filter (\<lambda>ev. ev = AddFound)
               (snd (scan cfg_ex env_hit_raise_hit ''10.0.0.1:80'' []))) = 1"
proof -
  have h: "list_all (\<lambda>c. \<not> isl (verify c ''10.0.0.1'' (PortStr ''80'')))
      (port_pocs cfg_ex env_hits ''10.0.0.1'' (PortStr ''80''))"
    by code_simp
  have e: "map exploit (filter (succeeds ''10.0.0.1'' (PortStr ''80''))
                          (port_pocs cfg_ex env_hits ''10.0.0.1'' (PortStr ''80'')))
        = [''exploit_hit'', ''exploit_hit'']"
    by code_simp
  have l: "length (verifications cfg_ex env_hits ''10.0.0.1:80'') = 2" by code_simp
  have l': "length (verifications cfg_ex env_hit_raise_hit ''10.0.0.1:80'') = 1" by code_simp
  from every_poc_checked [of cfg_ex env_hits "''10.0.0.1:80''" "''10.0.0.1''" "PortStr ''80''"]
       every_poc_checked [of cfg_ex env_hit_raise_hit "''10.0.0.1:80''"]
       h e l l'
  show ?thesis by simp
qed

text \<open>
  Claim C4 as stated fails: the registry's list for the product is hit, raise, hit, two
  of its PoCs succeed on the port, and the task makes one increment and one record,
  since the third PoC is never tried.
\<close>

theorem every_poc_checked_counterexample:
  "poc_dict env_hit_raise_hit ''camera-x'' = Inr [poc_hit, poc_raise, poc_hit]
   \<and> length (filter (succeeds ''10.0.0.1'' (PortStr ''80'')) [poc_hit, poc_raise, poc_hit]) = 2
   \<and> scan cfg_ex env_hit_raise_hit ''10.0.0.1:80'' [] =
       (Inl (Exception ''connection reset''),
        [LogInfo ''10.0.0.1 port 80 is open'', LogInfo ''10.0.0.1:80 is camera-x'',
         AddFound,
         AddVulnerable [''10.0.0.1'', ''80'', ''camera-x-cve1'', ''admin'', ''12345'', ''rtsp''],
         SnapshotPut ''exploit_hit''
           [''10.0.0.1'', ''80'', ''camera-x-cve1'', ''admin'', ''12345'', ''rtsp'',
            ''weak-password'']])"
proof -
  have a: "poc_dict env_hit_raise_hit ''camera-x'' = Inr [poc_hit, poc_raise, poc_hit]"
    by (simp add: env_hit_raise_hit_def)
  have b: "length (filter (succeeds ''10.0.0.1'' (PortStr ''80''))
                    [poc_hit, poc_raise, poc_hit]) = 2"
    by code_simp
  have c: "scan cfg_ex env_hit_raise_hit ''10.0.0.1:80'' [] =
       (Inl (Exception ''connection reset''),
        [LogInfo ''10.0.0.1 port 80 is open'', LogInfo ''10.0.0.1:80 is camera-x'',
         AddFound,
         AddVulnerable [''10.0.0.1'', ''80'', ''camera-x-cve1'', ''admin'', ''12345'', ''rtsp''],
         SnapshotPut ''exploit_hit''
           [''10.0.0.1'', ''80'', ''camera-x-cve1'', ''admin'', ''12345'', ''rtsp'',
            ''weak-password'']])"
    by code_simp
  from a b c show ?thesis by simp
qed


subsection \<open>Ports without a finding\<close>

lemma not_vulnerable_calls_matched:
  assumes "port_scan env ip p (timeout cfg) = Inr True"
    and "fingerprint env ip p cfg = Inr (Some product)"
    and "product \<noteq> []"
  shows "not_vulnerable_calls cfg env ip p =
     (if \<exists>pocs. poc_dict env product = Inr pocs
            \<and> (\<forall>c\<in>set pocs. \<not> isl (verify c ip p) \<and> \<not> succeeds ip p c)
      then [AddNotVulnerable [ip, str_port p, product]] else [])"
  using assms
  by (cases "poc_dict env product")
     (simp_all add: not_vulnerable_calls_def clean_miss_def list_all_iff)

lemma not_vulnerable_calls_unmatched:
  assumes "\<not> (port_scan env ip p (timeout cfg) = Inr True
            \<and> (\<exists>product. fingerprint env ip p cfg = Inr (Some product) \<and> product \<noteq> []))"
  shows "not_vulnerable_calls cfg env ip p = []"
  using assms
  by (auto simp: not_vulnerable_calls_def clean_miss_def split: sum.splits option.splits)

text \<open>
  Claim C6, as amended. The claim says that \<^verbatim>\<open>add_not_vulnerable\<close> is called if and only
  if no PoC returned a successful result. When the registry lookup or a \<^verbatim>\<open>verify\<close> call
  raises, no PoC has succeeded and yet the call is not made, so this is what holds
  instead. The \<^verbatim>\<open>add_not_vulnerable\<close> calls of a task are those of the ports it reaches,
  in order; a port that is open and fingerprinted to a product has one, with the address,
  the port as a string and the product, if and only if the registry lookup returned and
  every PoC of the list returned without a successful result; any other port has none.
\<close>

theorem not_vulnerable_iff:
  "filter is_add_not_vulnerable (snd (scan cfg env target []))
     = concat (map (not_vulnerable_calls cfg env (target_ip target))
                   (reached_ports cfg env (target_ip target) (target_ports cfg target)))
   \<and> (port_scan env ip p (timeout cfg) = Inr True
        \<and> fingerprint env ip p cfg = Inr (Some product)
        \<and> product \<noteq> []
      \<longrightarrow> not_vulnerable_calls cfg env ip p =
            (if \<exists>pocs. poc_dict env product = Inr pocs
                   \<and> (\<forall>c\<in>set pocs. \<not> isl (verify c ip p) \<and> \<not> succeeds ip p c)
             then [AddNotVulnerable [ip, str_port p, product]] else []))
   \<and> (\<not> (port_scan env ip p (timeout cfg) = Inr True
          \<and> (\<exists>product. fingerprint env ip p cfg = Inr (Some product) \<and> product \<noteq> []))
      \<longrightarrow> not_vulnerable_calls cfg env ip p = [])
   \<and> (target_ports cfg target = pre @ q # post
        \<and> list_all (port_returns cfg env (target_ip target)) pre
        \<and> port_scan env (target_ip target) q (timeout cfg) = Inr True
        \<and> fingerprint env (target_ip target) q cfg = Inr (Some product')
        \<and> product' \<noteq> []
        \<and> poc_dict env product' = Inr pocs
        \<and> (\<forall>c\<in>set pocs. \<not> isl (verify c (target_ip target) q)
                          \<and> \<not> succeeds (target_ip target) q c)
      \<longrightarrow> AddNotVulnerable [target_ip target, str_port q, product']
            \<in> set (snd (scan cfg env target [])))"
proof (intro conjI impI)
  show "filter is_add_not_vulnerable (snd (scan cfg env target []))
     = concat (map (not_vulnerable_calls cfg env (target_ip target))
                   (reached_ports cfg env (target_ip target) (target_ports cfg target)))"
    by (rule scan_not_vulnerable)
  {
    assume "port_scan env ip p (timeout cfg) = Inr True
        \<and> fingerprint env ip p cfg = Inr (Some product)
        \<and> product \<noteq> []"
    then show "not_vulnerable_calls cfg env ip p =
            (if \<exists>pocs. poc_dict env product = Inr pocs
                   \<and> (\<forall>c\<in>set pocs. \<not> isl (verify c ip p) \<and> \<not> succeeds ip p c)
             then [AddNotVulnerable [ip, str_port p, product]] else [])"
      using not_vulnerable_calls_matched [of env ip p cfg product] by simp
  }
  {
    assume "\<not> (port_scan env ip p (timeout cfg) = Inr True
          \<and> (\<exists>product. fingerprint env ip p cfg = Inr (Some product) \<and> product \<noteq> []))"
    then show "not_vulnerable_calls cfg env ip p = []"
      by (rule not_vulnerable_calls_unmatched)
  }
  {
    let ?ip = "target_ip target"
    assume h: "target_ports cfg target = pre @ q # post
        \<and> list_all (port_returns cfg env ?ip) pre
        \<and> port_scan env ?ip q (timeout cfg) = Inr True
        \<and> fingerprint env ?ip q cfg = Inr (Some product')
        \<and> product' \<noteq> []
        \<and> poc_dict env product' = Inr pocs
        \<and> (\<forall>c\<in>set pocs. \<not> isl (verify c ?ip q) \<and> \<not> succeeds ?ip q c)"
    then have r: "q \<in> set (reached_ports cfg env ?ip (target_ports cfg target))"
      using reached_mem [of "target_ports cfg target" pre q post cfg env ?ip] by simp
    from h have "not_vulnerable_calls cfg env ?ip q = [AddNotVulnerable [?ip, str_port q, product']]"
      using not_vulnerable_calls_matched [of env ?ip q cfg product'] by auto
    with r have "AddNotVulnerable [?ip, str_port q, product']
        \<in> set (concat (map (not_vulnerable_calls cfg env ?ip)
                  (reached_ports cfg env ?ip (target_ports cfg target))))"
      by force
    then have "AddNotVulnerable [?ip, str_port q, product']
        \<in> set (filter is_add_not_vulnerable (snd (scan cfg env target [])))"
      by (simp only: scan_not_vulnerable)
    then show "AddNotVulnerable [?ip, str_port q, product'] \<in> set (snd (scan cfg env target []))"
      by simp
  }
qed

text \<open>The amended claim C6 at a port whose only PoC finds nothing (the call is made), at
  a port with two findings and at a port with the PoCs miss, raise (it is not).\<close>

theorem not_vulnerable_iff_witness:
  "target_ports cfg_ex ''10.0.0.1:80'' = [] @ PortStr ''80'' # []
   \<and> poc_dict env_miss ''camera-x'' = Inr [poc_miss]
   \<and> \<not> isl (verify poc_miss (target_ip ''10.0.0.1:80'') (PortStr ''80''))
   \<and> \<not> succeeds (target_ip ''10.0.0.1:80'') (PortStr ''80'') poc_miss
   \<and> AddNotVulnerable [target_ip ''10.0.0.1:80'', str_port (PortStr ''80''), ''camera-x'']
        \<in> set (snd (scan cfg_ex env_miss ''10.0.0.1:80'' []))
   \<and> filter is_add_not_vulnerable (snd (scan cfg_ex env_miss ''10.0.0.1:80'' []))
        = [AddNotVulnerable [''10.0.0.1'', ''80'', ''camera-x'']]
   \<and> filter is_add_not_vulnerable (snd (scan cfg_ex env_hits ''10.0.0.1:80'' [])) = []
   \<and> filter is_add_not_vulnerable (snd (scan cfg_ex env_miss_raise ''10.0.0.1:80'' [])) = []"
proof -
  have h1: "target_ports cfg_ex ''10.0.0.1:80'' = [] @ PortStr ''80'' # []" by code_simp
  have h2: "list_all (port_returns cfg_ex env_miss (target_ip ''10.0.0.1:80'')) []" by simp
  have h3: "port_scan env_miss (target_ip ''10.0.0.1:80'') (PortStr ''80'') (timeout cfg_ex)
              = Inr True"
    by (simp add: env_miss_def)
  have h4: "fingerprint env_miss (target_ip ''10.0.0.1:80'') (PortStr ''80'') cfg_ex
              = Inr (Some ''camera-x'')"
    by (simp add: env_miss_def)
  have h5: "''camera-x'' \<noteq> []" by simp
  have h6: "poc_dict env_miss ''camera-x'' = Inr [poc_miss]"
    by (simp add: env_miss_def)
  have h7: "\<forall>c\<in>set [poc_miss]. \<not> isl (verify c (target_ip ''10.0.0.1:80'') (PortStr ''80''))
                           \<and> \<not> succeeds (target_ip ''10.0.0.1:80'') (PortStr ''80'') c"
    by (simp add: poc_miss_def succeeds_def)
  have a: "concat (map (not_vulnerable_calls cfg_ex env_miss (target_ip ''10.0.0.1:80''))
             (reached_ports cfg_ex env_miss (target_ip ''10.0.0.1:80'')
                (target_ports cfg_ex ''10.0.0.1:80'')))
        = [AddNotVulnerable [''10.0.0.1'', ''80'', ''camera-x''] :: string call]"
    by code_simp
  have b: "concat (map (not_vulnerable_calls cfg_ex env_hits (target_ip ''10.0.0.1:80''))
             (reached_ports cfg_ex env_hits (target_ip ''10.0.0.1:80'')
                (target_ports cfg_ex ''10.0.0.1:80'')))
        = ([] :: string call list)"
    by code_simp
  have c: "concat (map (not_vulnerable_calls cfg_ex env_miss_raise (target_ip ''10.0.0.1:80''))
             (reached_ports cfg_ex env_miss_raise (target_ip ''10.0.0.1:80'')
                (target_ports cfg_ex ''10.0.0.1:80'')))
        = ([] :: string call list)"
    by code_simp
  from not_vulnerable_iff [of cfg_ex env_miss "''10.0.0.1:80''" "''10.0.0.1''" "PortStr ''80''"
                              "''camera-x''" "[]" "PortStr ''80''" "[]" "''camera-x''" "[poc_miss]"]
       not_vulnerable_iff [of cfg_ex env_hits "''10.0.0.1:80''"]
       not_vulnerable_iff [of cfg_ex env_miss_raise "''10.0.0.1:80''"]
       h1 h2 h3 h4 h5 h6 h7 a b c
  show ?thesis by simp
qed

text \<open>
  Claim C6 as stated fails: the port is open and fingerprinted, none of the PoCs miss,
  raise returns a successful result, and \<^verbatim>\<open>add_not_vulnerable\<close> is not called.
\<close>

theorem not_vulnerable_iff_counterexample:
  "port_scan env_miss_raise ''10.0.0.1'' (PortStr ''80'') (timeout cfg_ex) = Inr True
   \<and> fingerprint env_miss_raise ''10.0.0.1'' (PortStr ''80'') cfg_ex = Inr (Some ''camera-x'')
   \<and> poc_dict env_miss_raise ''camera-x'' = Inr [poc_miss, poc_raise]
   \<and> length (filter (succeeds ''10.0.0.1'' (PortStr ''80'')) [poc_miss, poc_raise]) = 0
   \<and> scan cfg_ex env_miss_raise ''10.0.0.1:80'' [] =
       (Inl (Exception ''connection reset''),
        [LogInfo ''10.0.0.1 port 80 is open'', LogInfo ''10.0.0.1:80 is camera-x''])"
proof -
  have a: "port_scan env_miss_raise ''10.0.0.1'' (PortStr ''80'') (timeout cfg_ex) = Inr True"
    by (simp add: env_miss_raise_def)
  have b: "fingerprint env_miss_raise ''10.0.0.1'' (PortStr ''80'') cfg_ex
             = Inr (Some ''camera-x'')"
    by (simp add: env_miss_raise_def)
  have c: "poc_dict env_miss_raise ''camera-x'' = Inr [poc_miss, poc_raise]"
    by (simp add: env_miss_raise_def)
  have d: "length (filter (succeeds ''10.0.0.1'' (PortStr ''80'')) [poc_miss, poc_raise]) = 0"
    by code_simp
  have e: "scan cfg_ex env_miss_raise ''10.0.0.1:80'' [] =
       (Inl (Exception ''connection reset''),
        [LogInfo ''10.0.0.1 port 80 is open'', LogInfo ''10.0.0.1:80 is camera-x''])"
    by code_simp
  from a b c d e show ?thesis by simp
qed

section \<open>Properties of the report\<close>

subsection \<open>The output does not depend on what was printed before\<close>

lemma print_vuls_frame:
  "\<exists>r xs. \<forall>ou. print_vuls vuls results_max ou = (r, ou @ xs)"
proof (induction vuls)
  case Nil
  show ?case by simp
next
  case (Cons v vuls)
  obtain vul_name vul_count where v: "v = (vul_name, vul_count)" by (cases v)
  show ?case
  proof (cases "block_num vul_count results_max")
    case (Inl e)
    with v have "\<forall>ou. print_vuls (v # vuls) results_max ou = (Inl e, ou @ [])" by simp
    then show ?thesis by blast
  next
    case (Inr b)
    from Cons.IH obtain r xs where
      ih: "\<And>ou. print_vuls vuls results_max ou = (r, ou @ xs)" by blast
    from v Inr ih
    have "\<forall>ou. print_vuls (v # vuls) results_max ou
             = (r, ou @ (PrintVul vul_name b vul_count # xs))" by simp
    then show ?thesis by blast
  qed
qed

lemma print_groups_frame:
  "\<exists>r xs. \<forall>ou. print_groups gs results_max ou = (r, ou @ xs)"
proof (induction gs)
  case Nil
  show ?case by simp
next
  case (Cons g gs)
  obtain dev vuls where g: "g = (dev, vuls)" by (cases g)
  from print_vuls_frame [of vuls results_max] obtain r xs where
    pv: "\<And>ou. print_vuls vuls results_max ou = (r, ou @ xs)" by blast
  show ?case
  proof (cases r)
    case (Inl e)
    with g pv have "\<forall>ou. print_groups (g # gs) results_max ou
        = (Inl e, ou @ (PrintDev dev (sum_list (map snd vuls)) # xs))" by simp
    then show ?thesis by blast
  next
    case (Inr u)
    from Cons.IH obtain r' ys where
      ih: "\<And>ou. print_groups gs results_max ou = (r', ou @ ys)" by blast
    from g pv Inr ih have "\<forall>ou. print_groups (g # gs) results_max ou
        = (r', ou @ (PrintDev dev (sum_list (map snd vuls)) # xs @ ys))" by simp
    then show ?thesis by blast
  qed
qed

lemma print_report_frame:
  "\<exists>r xs. \<forall>ou. print_report items ou = (r, ou @ xs)"
proof (cases "items = []")
  case True
  then have "\<forall>ou. print_report items ou = (Inr (), ou @ [])" by (simp add: print_report_def)
  then show ?thesis by blast
next
  case False
  show ?thesis
  proof (cases "tally items []")
    case (Inl e)
    with False have "\<forall>ou. print_report items ou = (Inl e, ou @ [])"
      by (simp add: print_report_def)
    then show ?thesis by blast
  next
    case (Inr results)
    note t = this
    show ?thesis
    proof (cases "py_max (all_counts results)")
      case (Inl e)
      with False t have "\<forall>ou. print_report items ou = (Inl e, ou @ [])"
        by (simp add: print_report_def)
      then show ?thesis by blast
    next
      case (Inr results_max)
      from print_groups_frame [of results results_max] obtain r xs where
        pg: "\<And>ou. print_groups results results_max ou = (r, ou @ xs)" by blast
      show ?thesis
      proof (cases r)
        case (Inl e)
        with False t Inr pg have "\<forall>ou. print_report items ou
            = (Inl e, ou @ (PrintBlank # PrintHeader # xs))"
          by (simp add: print_report_def)
        then show ?thesis by blast
      next
        case (Inr u)
        with False t \<open>py_max (all_counts results) = Inr results_max\<close> pg
        have "\<forall>ou. print_report items ou
            = (Inr (), ou @ (PrintBlank # PrintHeader # xs
                   @ [PrintSum (int (length items)), PrintRule, PrintBlank]))"
          by (simp add: print_report_def)
        then show ?thesis by blast
      qed
    qed
  qed
qed

lemma report_frame:
  fixes w :: "'x world"
  shows "\<exists>r xs. \<forall>w' :: 'x world.
           files w' = files w \<longrightarrow> report cfg w' = (r, w'\<lparr>stdout := stdout w' @ xs\<rparr>)"
proof (cases "files w (path_join (out_dir cfg) (vulnerable cfg))")
  case None
  then have "\<forall>w' :: 'x world.
      files w' = files w \<longrightarrow> report cfg w' = (Inr (), w'\<lparr>stdout := stdout w' @ []\<rparr>)"
    by (simp add: report_def)
  then show ?thesis by blast
next
  case (Some ls)
  from print_report_frame [of "read_items ls"] obtain r xs where
    pr: "\<And>ou. print_report (read_items ls) ou = (r, ou @ xs)" by blast
  with Some have "\<forall>w' :: 'x world.
      files w' = files w \<longrightarrow> report cfg w' = (r, w'\<lparr>stdout := stdout w' @ xs\<rparr>)"
    by (simp add: report_def)
  then show ?thesis by blast
qed

text \<open>
  Claim C9. \<^verbatim>\<open>report\<close> only reads the result log and prints: it leaves the calls made on
  the progress store, the pipeline and the logger as they were, leaves the files as they
  were, and only appends to the output. Running it a second time gives the same result
  and prints the same lines again; more generally, what it prints depends on the files
  alone.
\<close>

theorem report_pure:
  fixes w w' :: "'x world"
  shows "calls (snd (report cfg w)) = calls w
   \<and> files (snd (report cfg w)) = files w
   \<and> stdout (snd (report cfg w)) = stdout w @ report_output cfg w
   \<and> fst (report cfg (snd (report cfg w))) = fst (report cfg w)
   \<and> report_output cfg (snd (report cfg w)) = report_output cfg w
   \<and> (files w' = files w \<longrightarrow>
         fst (report cfg w') = fst (report cfg w)
       \<and> report_output cfg w' = report_output cfg w)"
proof -
  from report_frame [of w cfg] obtain r xs where
    f: "\<And>v :: 'x world. files v = files w \<Longrightarrow> report cfg v = (r, v\<lparr>stdout := stdout v @ xs\<rparr>)"
    by blast
  have o: "report_output cfg v = xs" if "files v = files w" for v :: "'x world"
    using f [OF that] by (simp add: report_output_def)
  let ?w1 = "snd (report cfg w)"
  have w1: "?w1 = w\<lparr>stdout := stdout w @ xs\<rparr>" by (simp add: f)
  then have fw1: "files ?w1 = files w" by simp
  show ?thesis
    using f [OF fw1] f [of w] o [OF fw1] o [of w] f [of w'] o [of w']
    by (auto simp: w1)
qed

text \<open>Claim C9 at the log of five findings: the second run prints the same nine lines,
  and so does a run from a state with other calls.\<close>

theorem report_pure_witness:
  "files (world_ex\<lparr>calls := [AddDone]\<rparr>) = files world_ex
   \<and> report_output cfg_ex (world_ex\<lparr>calls := [AddDone]\<rparr>) = report_output cfg_ex world_ex
   \<and> report_output cfg_ex (snd (report cfg_ex world_ex))
       = [PrintBlank, PrintHeader, PrintDev ''cam'' 3, PrintVul ''weak-password'' 25 3,
          PrintDev ''dvr'' 2, PrintVul ''auth-bypass'' 16 2, PrintSum 5, PrintRule, PrintBlank]"
proof -
  have h: "files (world_ex\<lparr>calls := [AddDone]\<rparr>) = files world_ex" by simp
  have o: "report_output cfg_ex world_ex
       = [PrintBlank, PrintHeader, PrintDev ''cam'' 3, PrintVul ''weak-password'' 25 3,
          PrintDev ''dvr'' 2, PrintVul ''auth-bypass'' 16 2, PrintSum 5, PrintRule, PrintBlank]"
    by code_simp
  from report_pure [of cfg_ex world_ex "world_ex\<lparr>calls := [AddDone]\<rparr>"] h o
  show ?thesis by simp
qed


subsection \<open>The lines of the report\<close>

lemma block_num_ok:
  "results_max \<noteq> 0 \<Longrightarrow>
     block_num vul_count results_max = Inr (py_int (of_int vul_count / of_int results_max * 25))"
  by (simp add: block_num_def)

lemma print_vuls_ok:
  "results_max \<noteq> 0 \<Longrightarrow>
     print_vuls vuls results_max ou =
       (Inr (), ou @ map (\<lambda>v. PrintVul (fst v)
                         (py_int (of_int (snd v) / of_int results_max * 25)) (snd v)) vuls)"
  by (induction vuls arbitrary: ou) (auto simp: block_num_ok)

lemma print_groups_ok:
  "results_max \<noteq> 0 \<Longrightarrow>
     print_groups gs results_max ou = (Inr (), ou @ concat (map (group_lines results_max) gs))"
  by (induction gs arbitrary: ou) (auto simp: print_vuls_ok group_lines_def)

lemma vul_counts_append: "vul_counts (xs @ ys) = vul_counts xs @ vul_counts ys"
  by (induction xs rule: vul_counts.induct) simp_all

lemma vul_counts_map:
  "vul_counts (map (\<lambda>v. PrintVul (f v) (g v) (snd v)) vs) = map snd vs"
  by (induction vs) simp_all

lemma vul_counts_groups:
  "vul_counts (concat (map (group_lines m) gs)) = all_counts gs"
  by (induction gs)
     (auto simp: all_counts_def group_lines_def vul_counts_append vul_counts_map)

lemma vul_counts_mem:
  "PrintVul n b c \<in> set ou \<Longrightarrow> c \<in> set (vul_counts ou)"
  by (induction ou rule: vul_counts.induct) auto

lemma incr_positive:
  "list_all (\<lambda>v. 1 \<le> snd v) vs \<Longrightarrow> list_all (\<lambda>v. 1 \<le> snd v) (incr k vs) \<and> incr k vs \<noteq> []"
  by (induction vs) (auto split: if_splits)

lemma incr_group_positive:
  "positive gs \<Longrightarrow> positive (incr_group dev vul gs) \<and> incr_group dev vul gs \<noteq> []"
  by (induction gs) (auto simp: positive_def incr_positive split: if_splits)

lemma tally_positive:
  "positive gs \<Longrightarrow> tally items gs = Inr results \<Longrightarrow>
     positive results \<and> (items \<noteq> [] \<or> gs \<noteq> [] \<longrightarrow> results \<noteq> [])"
proof (induction items arbitrary: gs)
  case Nil
  then show ?case by simp
next
  case (Cons i items)
  from Cons.prems(2) have len: "length i > 2" by (simp split: if_splits)
  with Cons.prems(2) obtain dev others where
    sp: "str_split CHR ''-'' (i ! 2) = dev # others"
    and t: "tally items (incr_group dev (last i) gs) = Inr results"
    by (auto split: list.splits)
  from incr_group_positive [OF Cons.prems(1), of dev "last i"]
  have p: "positive (incr_group dev (last i) gs)" and ne: "incr_group dev (last i) gs \<noteq> []"
    by simp_all
  from Cons.IH [OF p t] ne show ?case by simp
qed

lemma all_counts_positive:
  "positive gs \<Longrightarrow> gs \<noteq> [] \<Longrightarrow>
     all_counts gs \<noteq> [] \<and> (\<forall>c\<in>set (all_counts gs). 1 \<le> c)"
  by (cases gs) (fastforce simp: positive_def all_counts_def list_all_iff)+

lemma py_max_Max:
  "xs \<noteq> [] \<Longrightarrow> py_max xs = Inr (Max (set xs))"
  by (cases xs) (simp_all add: Max.set_eq_fold [symmetric])

lemma print_report_lines:
  "snd (print_report items []) = [] \<or>
   (\<exists>results. positive results \<and> results \<noteq> [] \<and>
      snd (print_report items []) =
        [PrintBlank, PrintHeader]
          @ concat (map (group_lines (Max (set (all_counts results)))) results)
          @ [PrintSum (int (length items)), PrintRule, PrintBlank])"
proof (cases "items = []")
  case True
  then show ?thesis by (simp add: print_report_def)
next
  case False
  show ?thesis
  proof (cases "tally items []")
    case (Inl e)
    with False show ?thesis by (simp add: print_report_def)
  next
    case (Inr results)
    have "positive []" by (simp add: positive_def)
    from tally_positive [OF this Inr] False
    have p: "positive results" and ne: "results \<noteq> []" by simp_all
    let ?m = "Max (set (all_counts results))"
    from all_counts_positive [OF p ne]
    have a: "all_counts results \<noteq> []" and b: "\<forall>c\<in>set (all_counts results). 1 \<le> c"
      by simp_all
    from a b have "1 \<le> ?m"
      by (meson List.finite_set Max_in set_empty)
    then have m0: "?m \<noteq> 0" by simp
    have "snd (print_report items []) =
        [PrintBlank, PrintHeader] @ concat (map (group_lines ?m) results)
          @ [PrintSum (int (length items)), PrintRule, PrintBlank]"
      using False Inr py_max_Max [OF a] print_groups_ok [OF m0, of results]
      by (simp add: print_report_def)
    with p ne show ?thesis by blast
  qed
qed


lemma report_output_eq:
  "report_output cfg w =
     (case files w (path_join (out_dir cfg) (vulnerable cfg)) of
        None \<Rightarrow> []
      | Some ls \<Rightarrow> snd (print_report (read_items ls) []))"
proof (cases "files w (path_join (out_dir cfg) (vulnerable cfg))")
  case None
  then show ?thesis by (simp add: report_output_def report_def)
next
  case (Some ls)
  from print_report_frame [of "read_items ls"] obtain r xs where
    pr: "\<And>ou. print_report (read_items ls) ou = (r, ou @ xs)" by blast
  from pr [of "[]"] pr [of "stdout w"] Some show ?thesis
    by (simp add: report_output_def report_def)
qed

lemma py_int_floor:
  assumes "0 \<le> c" and "0 < m"
  shows "py_int (of_int c / of_int m * 25) = \<lfloor>(of_int c / of_int m * 25 :: rat)\<rfloor>"
    and "py_int (of_int c / of_int m * 25) = 25 * c div m"
proof -
  from assms have nn: "(0::rat) \<le> of_int c / of_int m * 25" by simp
  then show 1: "py_int (of_int c / of_int m * 25) = \<lfloor>(of_int c / of_int m * 25 :: rat)\<rfloor>"
    by (simp add: py_int_def)
  have "(of_int c / of_int m * 25 :: rat) = of_int (25 * c) / of_int m" by simp
  then have "\<lfloor>(of_int c / of_int m * 25 :: rat)\<rfloor> = 25 * c div m"
    by (simp only: floor_divide_of_int_eq)
  with 1 show "py_int (of_int c / of_int m * 25) = 25 * c div m" by simp
qed

text \<open>
  Claim C5, as amended. The claim says that the length of a bar is
  \<^verbatim>\<open>round(count / max * 25)\<close>. Line 53 takes \<^verbatim>\<open>int(...)\<close>, which truncates. So for every bar
  line of the report, with \<open>results_max\<close> the largest count shown in the report (the
  maximum over all vulnerabilities of all device groups): the count is between 1 and
  \<open>results_max\<close>, and the length is \<open>count / results_max * 25\<close> rounded down, which is
  the integer quotient of \<open>25 * count\<close> by \<open>results_max\<close>. The division is the exact one.
\<close>

theorem bar_length_truncated:
  assumes "PrintVul vul_name b vul_count \<in> set (report_output cfg w)"
  shows "\<exists>results_max. results_max = Max (set (vul_counts (report_output cfg w)))
           \<and> 1 \<le> vul_count \<and> vul_count \<le> results_max
           \<and> b = \<lfloor>(of_int vul_count / of_int results_max * 25 :: rat)\<rfloor>
           \<and> b = 25 * vul_count div results_max"
proof -
  let ?out = "report_output cfg w"
  have "\<exists>ls. ?out = snd (print_report (read_items ls) [])"
  proof (cases "files w (path_join (out_dir cfg) (vulnerable cfg))")
    case None
    with assms show ?thesis by (simp add: report_output_eq)
  next
    case (Some ls)
    then have "?out = snd (print_report (read_items ls) [])" by (simp add: report_output_eq)
    then show ?thesis by blast
  qed
  then obtain ls where out: "?out = snd (print_report (read_items ls) [])" by blast
  with assms print_report_lines [of "read_items ls"] obtain results where
    p: "positive results" and ne: "results \<noteq> []"
    and lines: "?out = [PrintBlank, PrintHeader]
          @ concat (map (group_lines (Max (set (all_counts results)))) results)
          @ [PrintSum (int (length (read_items ls))), PrintRule, PrintBlank]"
    by auto
  let ?m = "Max (set (all_counts results))"
  have vc: "vul_counts ?out = all_counts results"
    by (simp add: lines vul_counts_append vul_counts_groups)
  from assms have "vul_count \<in> set (vul_counts ?out)" by (rule vul_counts_mem)
  with vc have mem: "vul_count \<in> set (all_counts results)" by simp
  with all_counts_positive [OF p ne] have c1: "1 \<le> vul_count" by simp
  from mem have cm: "vul_count \<le> ?m" by simp
  from assms lines obtain g where "g \<in> set results"
    and "PrintVul vul_name b vul_count \<in> set (group_lines ?m g)" by auto
  then have b: "b = py_int (of_int vul_count / of_int ?m * 25)"
    by (auto simp: group_lines_def)
  from c1 cm have "0 \<le> vul_count" and "0 < ?m" by simp_all
  from py_int_floor [OF this] b vc c1 cm show ?thesis by simp
qed

text \<open>The amended claim C5 at the log of five findings: the count 2 of a maximum of 3
  gets a bar of 16.\<close>

theorem bar_length_truncated_witness:
  "PrintVul ''auth-bypass'' 16 2 \<in> set (report_output cfg_ex world_ex)
   \<and> (\<exists>results_max. results_max = Max (set (vul_counts (report_output cfg_ex world_ex)))
           \<and> (1::int) \<le> 2 \<and> 2 \<le> results_max
           \<and> 16 = \<lfloor>(of_int 2 / of_int results_max * 25 :: rat)\<rfloor>
           \<and> 16 = 25 * 2 div results_max)"
proof -
  have h: "PrintVul ''auth-bypass'' 16 2 \<in> set (report_output cfg_ex world_ex)"
    by code_simp
  from bar_length_truncated [OF h] h show ?thesis by blast
qed

text \<open>
  Claim C5 as stated fails on the log of five findings: the vulnerability with count 2,
  where the maximum is 3, gets a bar of length 16, and \<^verbatim>\<open>round(2 / 3 * 25)\<close> is 17.
\<close>

theorem bar_length_rounded_counterexample:
  "PrintVul ''auth-bypass'' 16 2 \<in> set (report_output cfg_ex world_ex)
   \<and> Max (set (vul_counts (report_output cfg_ex world_ex))) = 3
   \<and> round ((2::rat) / 3 * 25) = (17::int)"
  by code_simp


section \<open>Properties of completion and of the run\<close>

text \<open>
  Claim C7. \<^verbatim>\<open>finish\<close> is true if and only if the done counter is at least the total
  counter and the number of outstanding jobs of the snapshot pipeline is at most 0.
\<close>

theorem finish_iff:
  "finish s = (data_total s \<le> data_done s \<and> task_count s \<le> 0)"
  by (simp add: finish_def)

text \<open>Claim C7 at three states: all done and drained, one job outstanding, one target
  left.\<close>

theorem finish_iff_witness:
  "finish \<lparr>data_done = 3, data_total = 3, task_count = 0\<rparr>
   \<and> \<not> finish \<lparr>data_done = 3, data_total = 3, task_count = 1\<rparr>
   \<and> \<not> finish \<lparr>data_done = 2, data_total = 3, task_count = 0\<rparr>"
  using finish_iff [of "\<lparr>data_done = 3, data_total = 3, task_count = 0\<rparr>"]
        finish_iff [of "\<lparr>data_done = 3, data_total = 3, task_count = 1\<rparr>"]
        finish_iff [of "\<lparr>data_done = 2, data_total = 3, task_count = 0\<rparr>"]
  by simp

subsection \<open>The handlers of the run\<close>

lemma handler_cases:
  "handler KeyboardInterrupt w = (Inr (), w)"
  "handler (Exception m) w = (Inr (), w\<lparr>calls := calls w @ [LogError (Exception m)]\<rparr>)"
  "handler (BaseException m) w = (Inl (BaseException m), w)"
  by (simp_all add: handler_def)

lemma handler_escapes:
  "fst (handler e w) = Inl e' \<Longrightarrow> \<exists>m. e' = BaseException m"
  by (cases e) (auto simp: handler_def)

lemma run_try_escapes:
  assumes "fst (run_try cfg scanning w0) = Inl e"
  shows "\<exists>m. e = BaseException m"
proof -
  obtain r v where sc: "scanning w0 = (r, v)" by (cases "scanning w0")
  show ?thesis
  proof (cases r)
    case (Inl e0)
    with sc assms have "fst (handler e0 v) = Inl e" by (simp add: run_try_def)
    then show ?thesis by (rule handler_escapes)
  next
    case (Inr u)
    obtain r' v' where rp: "report cfg v = (r', v')" by (cases "report cfg v")
    show ?thesis
    proof (cases r')
      case (Inl e0)
      with sc Inr rp assms have "fst (handler e0 v') = Inl e" by (simp add: run_try_def)
      then show ?thesis by (rule handler_escapes)
    next
      case (Inr u')
      with sc \<open>r = Inr u\<close> rp assms show ?thesis by (simp add: run_try_def)
    qed
  qed
qed

lemma run_returns:
  "run cfg (Inr t) (Inr c) scanning w =
     run_try cfg scanning
       (w\<lparr>calls := calls w @ [LogInfo (''running at '' @ t), LogInfo (''config is '' @ c)]\<rparr>)"
  by (simp add: run_def)

text \<open>
  Claim C8, as amended. The claim says that \<^verbatim>\<open>run\<close> never lets an exception escape.
  The handlers catch \<^verbatim>\<open>KeyboardInterrupt\<close> and \<^verbatim>\<open>Exception\<close> only, and lines 95 and 96
  stand before the \<^verbatim>\<open>try\<close>, so this is what holds instead. When the scanning phase is
  interrupted by the user, \<^verbatim>\<open>run\<close> returns normally in the state the interrupt left:
  nothing is logged and nothing is reported. When the scanning phase raises an error
  that is a subclass of \<^verbatim>\<open>Exception\<close>, \<^verbatim>\<open>run\<close> returns normally after one
  \<^verbatim>\<open>logger.error\<close> of it, and nothing is reported. When the scanning phase returns, the
  report is made, and an \<^verbatim>\<open>Exception\<close> it raises is logged in the same way. An exception
  that is neither (\<^verbatim>\<open>SystemExit\<close>, say) escapes unlogged, and so does whatever line 95
  or line 96 raises: nothing else ever escapes.
\<close>

theorem run_handles:
  fixes w w0 w1 :: "'x world"
  assumes "w0 = w\<lparr>calls := calls w @ [LogInfo (''running at '' @ t),
                                        LogInfo (''config is '' @ c)]\<rparr>"
  shows
  "(scanning w0 = (Inl KeyboardInterrupt, w1)
      \<longrightarrow> run cfg (Inr t) (Inr c) scanning w = (Inr (), w1))
   \<and> (scanning w0 = (Inl (Exception m), w1)
      \<longrightarrow> run cfg (Inr t) (Inr c) scanning w
            = (Inr (), w1\<lparr>calls := calls w1 @ [LogError (Exception m)]\<rparr>))
   \<and> (scanning w0 = (Inl (BaseException m), w1)
      \<longrightarrow> run cfg (Inr t) (Inr c) scanning w = (Inl (BaseException m), w1))
   \<and> (scanning w0 = (Inr (), w1) \<and> fst (report cfg w1) = Inr ()
      \<longrightarrow> run cfg (Inr t) (Inr c) scanning w = (Inr (), snd (report cfg w1)))
   \<and> (scanning w0 = (Inr (), w1) \<and> fst (report cfg w1) = Inl (Exception m)
      \<longrightarrow> run cfg (Inr t) (Inr c) scanning w
            = (Inr (), (snd (report cfg w1))
                 \<lparr>calls := calls (snd (report cfg w1)) @ [LogError (Exception m)]\<rparr>))
   \<and> (fst (run cfg now cfg_str scanning w) = Inl e
      \<longrightarrow> now = Inl e \<or> cfg_str = Inl e \<or> (\<exists>m'. e = BaseException m'))
   \<and> run cfg (Inl e) cfg_str scanning w = (Inl e, w)
   \<and> run cfg (Inr t) (Inl e) scanning w
       = (Inl e, w\<lparr>calls := calls w @ [LogInfo (''running at '' @ t)]\<rparr>)"
proof (intro conjI impI)
  note r = run_returns [of cfg t c scanning w, folded assms]
  {
    assume "scanning w0 = (Inl KeyboardInterrupt, w1)"
    then show "run cfg (Inr t) (Inr c) scanning w = (Inr (), w1)"
      by (simp add: r run_try_def handler_cases)
  }
  {
    assume "scanning w0 = (Inl (Exception m), w1)"
    then show "run cfg (Inr t) (Inr c) scanning w
            = (Inr (), w1\<lparr>calls := calls w1 @ [LogError (Exception m)]\<rparr>)"
      by (simp add: r run_try_def handler_cases)
  }
  {
    assume "scanning w0 = (Inl (BaseException m), w1)"
    then show "run cfg (Inr t) (Inr c) scanning w = (Inl (BaseException m), w1)"
      by (simp add: r run_try_def handler_cases)
  }
  {
    assume "scanning w0 = (Inr (), w1) \<and> fst (report cfg w1) = Inr ()"
    then show "run cfg (Inr t) (Inr c) scanning w = (Inr (), snd (report cfg w1))"
      by (cases "report cfg w1") (simp add: r run_try_def)
  }
  {
    assume "scanning w0 = (Inr (), w1) \<and> fst (report cfg w1) = Inl (Exception m)"
    then show "run cfg (Inr t) (Inr c) scanning w
            = (Inr (), (snd (report cfg w1))
                 \<lparr>calls := calls (snd (report cfg w1)) @ [LogError (Exception m)]\<rparr>)"
      by (cases "report cfg w1") (simp add: r run_try_def handler_cases)
  }
  {
    assume esc: "fst (run cfg now cfg_str scanning w) = Inl e"
    show "now = Inl e \<or> cfg_str = Inl e \<or> (\<exists>m'. e = BaseException m')"
    proof (cases now)
      case (Inl e0)
      with esc show ?thesis by (simp add: run_def)
    next
      case (Inr t')
      show ?thesis
      proof (cases cfg_str)
        case (Inl e0)
        with Inr esc show ?thesis by (simp add: run_def)
      next
        case (Inr c')
        with \<open>now = Inr t'\<close> esc
        have "fst (run_try cfg scanning
                (w\<lparr>calls := calls w @ [LogInfo (''running at '' @ t'),
                                         LogInfo (''config is '' @ c')]\<rparr>)) = Inl e"
          by (simp add: run_returns)
        then show ?thesis using run_try_escapes by blast
      qed
    qed
  }
  show "run cfg (Inl e) cfg_str scanning w = (Inl e, w)"
    by (simp add: run_def)
  show "run cfg (Inr t) (Inl e) scanning w
       = (Inl e, w\<lparr>calls := calls w @ [LogInfo (''running at '' @ t)]\<rparr>)"
    by (simp add: run_def)
qed

text \<open>The amended claim C8 at an interrupted run, at a run whose scanning phase fails,
  and at a run whose report fails on a log line of two fields.\<close>

theorem run_handles_witness:
  "run cfg_ex (Inr ''12:00'') (Inr ''cfg'') scanning_interrupted world_ex
     = (Inr (), world_ex\<lparr>calls := [LogInfo ''running at 12:00'', LogInfo ''config is cfg'']\<rparr>)
   \<and> run cfg_ex (Inr ''12:00'') (Inr ''cfg'') scanning_failed world_ex
     = (Inr (), world_ex\<lparr>calls := [LogInfo ''running at 12:00'', LogInfo ''config is cfg'',
                                     LogError (Exception ''pool error'')]\<rparr>)
   \<and> fst (report cfg_ex (world_short\<lparr>calls := [LogInfo ''running at 12:00'',
                                                 LogInfo ''config is cfg'']\<rparr>))
       = Inl (Exception ''IndexError'')
   \<and> fst (run cfg_ex (Inr ''12:00'') (Inr ''cfg'') scanning_ok world_short) = Inr ()
   \<and> calls (snd (run cfg_ex (Inr ''12:00'') (Inr ''cfg'') scanning_ok world_short))
       = [LogInfo ''running at 12:00'', LogInfo ''config is cfg'',
          LogError (Exception ''IndexError'')]"
proof -
  let ?w0 = "world_ex\<lparr>calls := [LogInfo ''running at 12:00'', LogInfo ''config is cfg'']\<rparr>"
  let ?s0 = "world_short\<lparr>calls := [LogInfo ''running at 12:00'', LogInfo ''config is cfg'']\<rparr>"
  have a: "?w0 = world_ex\<lparr>calls := calls world_ex @ [LogInfo (''running at '' @ ''12:00''),
                                                        LogInfo (''config is '' @ ''cfg'')]\<rparr>"
    by (simp add: world_ex_def)
  have b: "?s0 = world_short\<lparr>calls := calls world_short @ [LogInfo (''running at '' @ ''12:00''),
                                                        LogInfo (''config is '' @ ''cfg'')]\<rparr>"
    by (simp add: world_short_def)
  have h1: "scanning_interrupted ?w0 = (Inl KeyboardInterrupt, ?w0)"
    by (simp add: scanning_interrupted_def)
  have h2: "scanning_failed ?w0 = (Inl (Exception ''pool error''), ?w0)"
    by (simp add: scanning_failed_def)
  have h3: "scanning_ok ?s0 = (Inr (), ?s0)"
    by (simp add: scanning_ok_def)
  have h4: "fst (report cfg_ex ?s0) = Inl (Exception ''IndexError'')"
    by code_simp
  have h5: "calls (snd (report cfg_ex ?s0))
              = [LogInfo ''running at 12:00'', LogInfo ''config is cfg'']"
    by code_simp
  from run_handles [OF a, of scanning_interrupted ?w0 cfg_ex "''pool error''"]
       run_handles [OF a, of scanning_failed ?w0 cfg_ex "''pool error''"]
       run_handles [OF b, of scanning_ok ?s0 cfg_ex "''IndexError''"]
       h1 h2 h3 h4 h5
  show ?thesis by simp
qed

text \<open>
  Claim C8 as stated fails: a \<^verbatim>\<open>SystemExit\<close> raised in the scanning phase leaves \<^verbatim>\<open>run\<close>
  and is not logged, and an interrupt that arrives at line 95 leaves \<^verbatim>\<open>run\<close> too.
\<close>

theorem run_escapes_counterexample:
  "fst (run cfg_ex (Inr ''12:00'') (Inr ''cfg'') scanning_exits world_ex)
     = Inl (BaseException ''SystemExit'')
   \<and> calls (snd (run cfg_ex (Inr ''12:00'') (Inr ''cfg'') scanning_exits world_ex))
     = [LogInfo ''running at 12:00'', LogInfo ''config is cfg'']
   \<and> fst (run cfg_ex (Inl KeyboardInterrupt) (Inr ''cfg'') scanning_ok world_ex)
     = Inl KeyboardInterrupt"
  by (simp add: run_def run_try_def handler_def scanning_exits_def world_ex_def)

end
